theory Spec2Isabelle
  imports Main
begin

section \<open>Python values used by warp-plus-keygen.py\<close>

text \<open>
  A Python \<open>str\<close> is a sequence of Unicode code points; it is modelled as a list of
  natural numbers. \<open>py\<close> turns a literal of the source into such a list.
\<close>

type_synonym pystr = "nat list"

definition py :: "string \<Rightarrow> pystr" where
  "py s = map of_char s"

text \<open>
  \<open>str.isspace\<close> for one code point, as CPython decides it: the ASCII table
  (TAB to CR, FS to US, SPACE) and the Unicode white-space code points.
\<close>

definition isspace :: "nat \<Rightarrow> bool" where
  "isspace c \<longleftrightarrow>
     (9 \<le> c \<and> c \<le> 13) \<or> (28 \<le> c \<and> c \<le> 32) \<or> c = 133 \<or> c = 160 \<or> c = 5760 \<or>
     (8192 \<le> c \<and> c \<le> 8202) \<or> c = 8232 \<or> c = 8233 \<or> c = 8239 \<or> c = 8287 \<or> c = 12288"

text \<open>\<open>s.strip()\<close>: leading white space removed, then trailing white space.\<close>

definition py_strip :: "pystr \<Rightarrow> pystr" where
  "py_strip s = rev (dropWhile isspace (rev (dropWhile isspace s)))"

text \<open>
  \<open>s.split(sep)\<close> for a separator of one code point: every occurrence of the
  separator ends a segment; the empty string gives one empty segment.
\<close>

fun py_split :: "nat \<Rightarrow> pystr \<Rightarrow> pystr list" where
  "py_split sep [] = [[]]"
| "py_split sep (c # cs) =
     (if c = sep then [] # py_split sep cs
      else (case py_split sep cs of
              [] \<Rightarrow> [[c]]
            | seg # segs \<Rightarrow> (c # seg) # segs))"

definition comma :: nat where
  "comma = 44"

text \<open>
  JSON values as \<open>r.json()\<close> returns them. An object is the list of the items of the
  parsed \<open>dict\<close>; a lookup takes the binding of the key.
\<close>

datatype json =
    JNull
  | JBool bool
  | JNum int
  | JStr pystr
  | JArr "json list"
  | JObj "(pystr \<times> json) list"

text \<open>
  The exceptions that can reach a handler of the program. \<open>KeyboardInterrupt\<close> and
  \<open>SystemExit\<close> derive from \<open>BaseException\<close> only; every other one is an
  \<open>Exception\<close>.
\<close>

datatype exn =
    HTTPStatusError nat
  | RequestError
  | RequestsException
  | RequestsHTTPError nat
  | UnicodeDecodeError
  | UnicodeEncodeError
  | InvalidURL
  | JSONDecodeError
  | KeyError pystr
  | TypeError
  | AttributeError
  | IndexError
  | KeyboardInterrupt
  | SystemExit nat

fun is_HTTPStatusError :: "exn \<Rightarrow> bool" where
  "is_HTTPStatusError (HTTPStatusError _) = True"
| "is_HTTPStatusError _ = False"

fun is_RequestError :: "exn \<Rightarrow> bool" where
  "is_RequestError RequestError = True"
| "is_RequestError _ = False"

fun is_Exception :: "exn \<Rightarrow> bool" where
  "is_Exception KeyboardInterrupt = False"
| "is_Exception (SystemExit _) = False"
| "is_Exception _ = True"

text \<open>Sequencing of computations that return a value or raise.\<close>

definition sbind :: "exn + 'a \<Rightarrow> ('a \<Rightarrow> exn + 'b) \<Rightarrow> exn + 'b" where
  "sbind m f = (case m of Inl e \<Rightarrow> Inl e | Inr x \<Rightarrow> f x)"

text \<open>\<open>d[k]\<close>: a dict raises \<open>KeyError\<close> on a missing key; no other JSON value
  can be indexed by a string.\<close>

fun getitem :: "json \<Rightarrow> pystr \<Rightarrow> exn + json" where
  "getitem (JObj kvs) k = (case map_of kvs k of None \<Rightarrow> Inl (KeyError k) | Some v \<Rightarrow> Inr v)"
| "getitem _ k = Inl TypeError"

text \<open>\<open>d.get(k, default)\<close>: only a dict has the method.\<close>

fun dict_get :: "json \<Rightarrow> pystr \<Rightarrow> json \<Rightarrow> exn + json" where
  "dict_get (JObj kvs) k d = (case map_of kvs k of None \<Rightarrow> Inr d | Some v \<Rightarrow> Inr v)"
| "dict_get _ k d = Inl AttributeError"

section \<open>get_base_keys\<close>

text \<open>
  What the seed-key source does on the one \<open>requests.get\<close>: it answers with a status
  and a body, or the call raises a \<open>requests\<close> exception, or the operator interrupts.
  The body is given by its UTF-8 decoding, \<open>None\<close> when the bytes are not valid UTF-8.
\<close>

datatype seed_outcome =
    SeedResponse nat "pystr option"
  | SeedFailed
  | SeedInterrupted

record seed_response =
  seed_status :: nat
  seed_content :: "pystr option"

definition requests_get :: "seed_outcome \<Rightarrow> exn + seed_response" where
  "requests_get out =
     (case out of
        SeedResponse st body \<Rightarrow> Inr \<lparr>seed_status = st, seed_content = body\<rparr>
      | SeedFailed \<Rightarrow> Inl RequestsException
      | SeedInterrupted \<Rightarrow> Inl KeyboardInterrupt)"

text \<open>\<open>requests\<close>: \<open>raise_for_status\<close> raises on the statuses 400 to 599.\<close>

definition requests_raise_for_status :: "seed_response \<Rightarrow> exn + unit" where
  "requests_raise_for_status response =
     (if 400 \<le> seed_status response \<and> seed_status response < 600
      then Inl (RequestsHTTPError (seed_status response)) else Inr ())"

definition content_decode :: "seed_response \<Rightarrow> exn + pystr" where
  "content_decode response =
     (case seed_content response of None \<Rightarrow> Inl UnicodeDecodeError | Some s \<Rightarrow> Inr s)"

definition fallback_keys :: "pystr list" where
  "fallback_keys =
     [py ''Qi286N5r-v4R05pT1-3Hl8V24w'',
      py ''mJ9t3X82-N7hB46s9-Dq5yP13f'',
      py ''Yk147R6p-b2S98vT4-Mw3nH71x'']"

text \<open>The body of the \<open>try\<close> block of \<open>get_base_keys\<close>.\<close>

definition get_base_keys_try :: "seed_outcome \<Rightarrow> exn + pystr list" where
  "get_base_keys_try out =
     sbind (requests_get out) (\<lambda>response.
     sbind (requests_raise_for_status response) (\<lambda>_.
     sbind (content_decode response) (\<lambda>keys_str.
     Inr (map py_strip (filter (\<lambda>k. py_strip k \<noteq> []) (py_split comma keys_str))))))"

text \<open>\<open>except Exception\<close> returns the hardcoded keys; an interruption is not caught.\<close>

definition get_base_keys :: "seed_outcome \<Rightarrow> exn + pystr list" where
  "get_base_keys out =
     (case get_base_keys_try out of
        Inr keys \<Rightarrow> Inr keys
      | Inl e \<Rightarrow> if is_Exception e then Inr fallback_keys else Inl e)"

section \<open>The outside world\<close>

text \<open>
  The program talks to the provider's API through \<open>httpx\<close>, draws from \<open>random\<close>,
  sleeps and prints. A request is recorded with its method, its path, the headers given at
  the call and the \<open>json=\<close> argument.
\<close>

datatype http_method = GET | POST | PATCH | PUT | DELETE

datatype path = Reg | RegId json | RegIdAccount json

datatype header_value = Literal string | Bearer json

datatype request = Request http_method path "(string \<times> header_value) list" "json option"

text \<open>
  A call of the client ends with a response (its status, and its body as \<open>r.json()\<close>
  parses it, \<open>None\<close> when the body is not JSON), with a transport error
  (\<open>httpx.RequestError\<close>), with an exception of no class that the loop names, or with
  the operator's interruption. \<open>Unsendable\<close> is the third case: \<open>httpx\<close> raises
  while it builds the request, \<open>InvalidURL\<close> for a control character in an id that
  goes into the path, \<open>UnicodeEncodeError\<close> for a token that is not ASCII; the model
  raises \<open>InvalidURL\<close> for all of them. Which calls end so is left to the environment:
  the theorems below hold whatever it decides, so in particular when it decides as
  \<open>httpx\<close> does from the id and the token.
\<close>

datatype api_outcome =
    Responded nat "json option"
  | Failed
  | Unsendable
  | Interrupted

record response =
  status_code :: nat
  body_json :: "json option"

text \<open>The lines written to standard error; a formatted line keeps its arguments.\<close>

datatype msg =
    Line string
  | HTTPErrorLine nat nat exn
  | RequestErrorLine nat nat exn
  | UnexpectedErrorLine nat nat exn
  | AccountTypeLine json
  | DataCountLine json
  | FatalErrorLine exn

text \<open>
  Everything the process does to the outside is an event; a blocking call is recorded
  with the way it ended (\<open>Sleep secs True\<close> is a sleep that was interrupted). One
  \<open>print\<close> call that writes is one \<open>Stdout\<close> or \<open>Stderr\<close> event, with the
  value or the line printed. The operator's interruption reaches the program while it
  waits in a blocking call (the call of \<open>get_base_keys\<close>, a request of the client, a
  sleep) or between two statements; \<open>Interrupt\<close> records the second case.
\<close>

datatype event =
    SeedGet seed_outcome
  | ClientOpen
  | ClientClose
  | Http request api_outcome
  | Choice "pystr list"
  | Sleep nat bool
  | Stdout json
  | Stderr msg
  | Interrupt

text \<open>
  The environment fixes how the outside behaves: the seed-key source, the outcome of the
  n-th call of the client, the n-th number of the random source, whether the n-th sleep is
  interrupted, whether the operator's signal arrives before the n-th statement of the
  workflow, and the values whose text standard output cannot encode
  (\<open>print\<close> raises \<open>UnicodeEncodeError\<close> on them, for instance on a string with a
  lone surrogate).
\<close>

record env =
  seed_source :: seed_outcome
  api :: "nat \<Rightarrow> api_outcome"
  random_source :: "nat \<Rightarrow> nat"
  sleep_interrupted :: "nat \<Rightarrow> bool"
  signal :: "nat \<Rightarrow> bool"
  unprintable :: "json \<Rightarrow> bool"

record world =
  requests_sent :: nat
  draws :: nat
  naps :: nat
  steps :: nat
  trace :: "event list"

type_synonym 'a prog = "world \<Rightarrow> (exn + 'a) \<times> world"

definition ret :: "'a \<Rightarrow> 'a prog" where
  "ret x w = (Inr x, w)"

definition raise :: "exn \<Rightarrow> 'a prog" where
  "raise e w = (Inl e, w)"

definition lift :: "exn + 'a \<Rightarrow> 'a prog" where
  "lift r w = (r, w)"

definition bind :: "'a prog \<Rightarrow> ('a \<Rightarrow> 'b prog) \<Rightarrow> 'b prog" where
  "bind m f w = (case m w of (Inl e, w1) \<Rightarrow> (Inl e, w1) | (Inr x, w1) \<Rightarrow> f x w1)"

definition emit :: "event \<Rightarrow> unit prog" where
  "emit ev w = (Inr (), w\<lparr>trace := trace w @ [ev]\<rparr>)"

text \<open>
  A statement of the workflow is a \<open>step\<close>: before it runs, the operator's signal may
  arrive, and then \<open>KeyboardInterrupt\<close> is raised in its place. The model follows the
  process up to the first interruption.
\<close>

definition checkpoint :: "env \<Rightarrow> unit prog" where
  "checkpoint env w =
     (if signal env (steps w)
      then (Inl KeyboardInterrupt, w\<lparr>steps := steps w + 1, trace := trace w @ [Interrupt]\<rparr>)
      else (Inr (), w\<lparr>steps := steps w + 1\<rparr>))"

definition step :: "env \<Rightarrow> 'a prog \<Rightarrow> ('a \<Rightarrow> 'b prog) \<Rightarrow> 'b prog" where
  "step env m f = bind (checkpoint env) (\<lambda>_. bind m f)"

text \<open>
  \<open>print(v)\<close> encodes the text of \<open>v\<close> before it writes any of it: on a value that
  standard output cannot encode it raises and nothing is written. Standard error replaces
  what it cannot encode (its error handler is \<open>backslashreplace\<close>), so a \<open>print\<close> to
  it is an \<open>emit\<close>.
\<close>

definition print_stdout :: "env \<Rightarrow> json \<Rightarrow> unit prog" where
  "print_stdout env v =
     (if unprintable env v then raise UnicodeEncodeError else emit (Stdout v))"

definition client_request :: "env \<Rightarrow> request \<Rightarrow> response prog" where
  "client_request env rq w =
     (let out = api env (requests_sent w);
          w1 = w\<lparr>requests_sent := requests_sent w + 1, trace := trace w @ [Http rq out]\<rparr>
      in case out of
           Responded st body \<Rightarrow> (Inr \<lparr>status_code = st, body_json = body\<rparr>, w1)
         | Failed \<Rightarrow> (Inl RequestError, w1)
         | Unsendable \<Rightarrow> (Inl InvalidURL, w1)
         | Interrupted \<Rightarrow> (Inl KeyboardInterrupt, w1))"

text \<open>\<open>httpx\<close>: \<open>raise_for_status\<close> raises unless the status is 2xx.\<close>

definition is_success :: "nat \<Rightarrow> bool" where
  "is_success st \<longleftrightarrow> 200 \<le> st \<and> st \<le> 299"

definition raise_for_status :: "response \<Rightarrow> exn + unit" where
  "raise_for_status r =
     (if is_success (status_code r) then Inr () else Inl (HTTPStatusError (status_code r)))"

definition r_json :: "response \<Rightarrow> exn + json" where
  "r_json r = (case body_json r of None \<Rightarrow> Inl JSONDecodeError | Some j \<Rightarrow> Inr j)"

text \<open>
  \<open>random.choice(seq)\<close> raises \<open>IndexError\<close> on an empty sequence and otherwise
  returns the element at an index below \<open>len(seq)\<close> that the random source decides.
\<close>

definition random_choice :: "env \<Rightarrow> pystr list \<Rightarrow> pystr prog" where
  "random_choice env seq w =
     (let w1 = w\<lparr>trace := trace w @ [Choice seq]\<rparr>
      in if seq = [] then (Inl IndexError, w1)
         else (Inr (seq ! (random_source env (draws w) mod length seq)),
               w1\<lparr>draws := draws w + 1\<rparr>))"

definition time_sleep :: "env \<Rightarrow> nat \<Rightarrow> unit prog" where
  "time_sleep env secs w =
     (let i = sleep_interrupted env (naps w);
          w1 = w\<lparr>naps := naps w + 1, trace := trace w @ [Sleep secs i]\<rparr>
      in if i then (Inl KeyboardInterrupt, w1) else (Inr (), w1))"

text \<open>
  \<open>with httpx.Client(...) as client\<close>: the client is closed however the block ends.
  Its base URL, default headers and timeout are constants of the call and are left out.
  The operator's signal may arrive before the client is opened, and again when the block
  is left and the client closes.
\<close>

definition with_client :: "env \<Rightarrow> 'a prog \<Rightarrow> 'a prog" where
  "with_client env block =
     bind (checkpoint env) (\<lambda>_ w.
       case block (w\<lparr>trace := trace w @ [ClientOpen]\<rparr>) of
         (r, w1) \<Rightarrow>
           if r = Inl KeyboardInterrupt then (r, w1\<lparr>trace := trace w1 @ [ClientClose]\<rparr>)
           else (case checkpoint env w1 of
                   (Inl e, w2) \<Rightarrow> (Inl e, w2\<lparr>trace := trace w2 @ [ClientClose]\<rparr>)
                 | (Inr _, w2) \<Rightarrow> (r, w2\<lparr>trace := trace w2 @ [ClientClose]\<rparr>)))"

section \<open>generate_single_key\<close>

definition max_retries :: nat where
  "max_retries = 3"

text \<open>The two lines that end a run without a key.\<close>

definition cancelled_line :: msg where
  "cancelled_line = Line (CHR 0x0A # ''Cancelled by user'')"

definition exhausted_line :: msg where
  "exhausted_line = Line ''Failed to generate WARP+ key after all retries''"

text \<open>
  One pass through the \<open>try\<close> block of the loop (lines 59 to 117), statement by
  statement: \<open>r.json()\<close> is parsed again at each use, \<open>raise_for_status\<close> is called
  where the source calls it, and the responses of the PATCH, DELETE and PUT requests are
  dropped as the source drops them. The three dictionaries of headers are built by
  statements that cannot raise; they are a \<open>let\<close>.
\<close>

definition attempt :: "env \<Rightarrow> pystr list \<Rightarrow> json prog" where
  "attempt env base_keys =
     with_client env (
       step env (client_request env (Request POST Reg [] None)) (\<lambda>r.
       step env (lift (raise_for_status r)) (\<lambda>_.
       step env (lift (sbind (r_json r) (\<lambda>j. getitem j (py ''id'')))) (\<lambda>id1.
       step env (lift (sbind (r_json r) (\<lambda>j. sbind (getitem j (py ''account'')) (\<lambda>a.
                     getitem a (py ''license''))))) (\<lambda>license.
       step env (lift (sbind (r_json r) (\<lambda>j. getitem j (py ''token'')))) (\<lambda>token1.
       step env (client_request env (Request POST Reg [] None)) (\<lambda>r.
       step env (lift (raise_for_status r)) (\<lambda>_.
       step env (lift (sbind (r_json r) (\<lambda>j. getitem j (py ''id'')))) (\<lambda>id2.
       step env (lift (sbind (r_json r) (\<lambda>j. getitem j (py ''token'')))) (\<lambda>token2.
       let headers_get1 = [(''Authorization'', Bearer token1)];
           headers_get2 = [(''Authorization'', Bearer token2)];
           headers_post = [(''Content-Type'', Literal ''application/json; charset=UTF-8''),
                           (''Authorization'', Bearer token1)]
       in
       step env (client_request env (Request PATCH (RegId id1) headers_post
               (Some (JObj [(py ''referrer'', id2)])))) (\<lambda>_.
       step env (client_request env (Request DELETE (RegId id2) headers_get2 None)) (\<lambda>_.
       step env (random_choice env base_keys) (\<lambda>base_key.
       step env (client_request env (Request PUT (RegIdAccount id1) headers_post
               (Some (JObj [(py ''license'', JStr base_key)])))) (\<lambda>_.
       step env (client_request env (Request PUT (RegIdAccount id1) headers_post
               (Some (JObj [(py ''license'', license)])))) (\<lambda>_.
       step env (client_request env (Request GET (RegIdAccount id1) headers_get1 None)) (\<lambda>r.
       step env (lift (raise_for_status r)) (\<lambda>_.
       step env (lift (sbind (r_json r) (\<lambda>j. dict_get j (py ''account_type'') (JStr [])))) (\<lambda>account_type.
       step env (lift (sbind (r_json r) (\<lambda>j. dict_get j (py ''referral_count'') (JNum 0)))) (\<lambda>referral_count.
       step env (lift (sbind (r_json r) (\<lambda>j. getitem j (py ''license'')))) (\<lambda>final_license.
       step env (client_request env (Request DELETE (RegId id1) headers_get1 None)) (\<lambda>_.
       step env (print_stdout env final_license) (\<lambda>_.
       step env (emit (Stderr (AccountTypeLine account_type))) (\<lambda>_.
       step env (emit (Stderr (DataCountLine referral_count))) (\<lambda>_.
       ret final_license))))))))))))))))))))))))"

text \<open>
  What each \<open>except\<close> clause does after it has incremented \<open>retry_count\<close>: it prints
  its line and sleeps when an attempt is left.
\<close>

definition after_failure :: "env \<Rightarrow> msg \<Rightarrow> nat \<Rightarrow> nat \<Rightarrow> unit prog" where
  "after_failure env line retry_count secs =
     step env (emit (Stderr line)) (\<lambda>_.
     if retry_count < max_retries then step env (time_sleep env secs) ret else ret ())"

text \<open>
  The \<open>while\<close> loop, with the three \<open>except\<close> clauses in the order of the source;
  an exception that none of them catches leaves the loop. After the loop the failure
  line is printed and \<open>sys.exit(1)\<close> raises \<open>SystemExit\<close>.
\<close>

function retry_loop :: "env \<Rightarrow> pystr list \<Rightarrow> nat \<Rightarrow> json prog" where
  "retry_loop env base_keys retry_count w =
     (if retry_count < max_retries then
        (case attempt env base_keys w of
           (Inr final_license, w1) \<Rightarrow> (Inr final_license, w1)
         | (Inl e, w1) \<Rightarrow>
             if is_HTTPStatusError e then
               (case after_failure env (HTTPErrorLine (retry_count + 1) max_retries e)
                       (retry_count + 1) 5 w1 of
                  (Inl e2, w2) \<Rightarrow> (Inl e2, w2)
                | (Inr _, w2) \<Rightarrow> retry_loop env base_keys (retry_count + 1) w2)
             else if is_RequestError e then
               (case after_failure env (RequestErrorLine (retry_count + 1) max_retries e)
                       (retry_count + 1) 5 w1 of
                  (Inl e2, w2) \<Rightarrow> (Inl e2, w2)
                | (Inr _, w2) \<Rightarrow> retry_loop env base_keys (retry_count + 1) w2)
             else if is_Exception e then
               (case after_failure env (UnexpectedErrorLine (retry_count + 1) max_retries e)
                       (retry_count + 1) 10 w1 of
                  (Inl e2, w2) \<Rightarrow> (Inl e2, w2)
                | (Inr _, w2) \<Rightarrow> retry_loop env base_keys (retry_count + 1) w2)
             else (Inl e, w1))
      else
        step env (emit (Stderr exhausted_line)) (\<lambda>_. step env (raise (SystemExit 1)) ret) w)"
  by pat_completeness auto
termination
  by (relation "measure (\<lambda>(env, base_keys, retry_count, w). max_retries - retry_count)") auto

text \<open>
  \<open>generate_single_key\<close> calls \<open>get_base_keys\<close> once (line 44), which is recorded
  in the trace with what the source did, and enters the loop with \<open>retry_count = 0\<close>.
  \<open>SeedInterrupted\<close> is an interruption before the source has answered; one that
  arrives after the answer is the signal before the next statement.
\<close>

definition fetch_base_keys :: "env \<Rightarrow> pystr list prog" where
  "fetch_base_keys env w =
     (get_base_keys (seed_source env), w\<lparr>trace := trace w @ [SeedGet (seed_source env)]\<rparr>)"

definition generate_single_key :: "env \<Rightarrow> json prog" where
  "generate_single_key env =
     bind (fetch_base_keys env) (\<lambda>base_keys. retry_loop env base_keys 0)"

section \<open>main and the process\<close>

text \<open>
  \<open>main\<close> (lines 139 to 148) catches \<open>KeyboardInterrupt\<close> and then
  \<open>Exception\<close>; \<open>SystemExit\<close> passes through both clauses. Its handlers are not
  interrupted: the first interruption has ended the workflow.
\<close>

definition main :: "env \<Rightarrow> unit prog" where
  "main env w =
     (case generate_single_key env w of
        (Inr _, w1) \<Rightarrow> (Inr (), w1)
      | (Inl e, w1) \<Rightarrow>
          if e = KeyboardInterrupt then
            bind (emit (Stderr cancelled_line)) (\<lambda>_. raise (SystemExit 130)) w1
          else if is_Exception e then
            bind (emit (Stderr (FatalErrorLine e))) (\<lambda>_. raise (SystemExit 1)) w1
          else (Inl e, w1))"

text \<open>
  The exit status of the process: 0 when \<open>main\<close> returns, the argument of
  \<open>sys.exit\<close> when \<open>SystemExit\<close> leaves it, 1 for any other uncaught exception.
\<close>

fun exit_status :: "exn + unit \<Rightarrow> nat" where
  "exit_status (Inr _) = 0"
| "exit_status (Inl (SystemExit n)) = n"
| "exit_status (Inl _) = 1"

text \<open>A run of the process: its exit status and everything it did.\<close>

definition world0 :: world where
  "world0 = \<lparr>requests_sent = 0, draws = 0, naps = 0, steps = 0, trace = []\<rparr>"

definition run :: "env \<Rightarrow> nat \<times> event list" where
  "run env = (case main env world0 of (r, w) \<Rightarrow> (exit_status r, trace w))"

text \<open>The values printed to standard output and the lines printed to standard error.\<close>

definition stdout :: "event list \<Rightarrow> json list" where
  "stdout t = concat (map (\<lambda>ev. case ev of Stdout v \<Rightarrow> [v] | _ \<Rightarrow> []) t)"

definition stderr :: "event list \<Rightarrow> msg list" where
  "stderr t = concat (map (\<lambda>ev. case ev of Stderr m \<Rightarrow> [m] | _ \<Rightarrow> []) t)"

text \<open>
  The lines on standard output; a line ends at a line feed. \<open>print(v)\<close> writes
  \<open>str(v)\<close> and a line feed. The \<open>str\<close> of a string is the string itself,
  written as it is: its lines are the segments between its line feeds. The \<open>str\<close> of
  any other JSON value is its \<open>repr\<close>, which has no line feed (\<open>repr\<close> escapes
  those inside strings): it is one line, kept here as the value.
\<close>

datatype line = Chars pystr | ReprOf json




section \<open>Observations on traces\<close>

text \<open>A request that was answered, whatever the status.\<close>

fun is_responded :: "api_outcome \<Rightarrow> bool" where
  "is_responded (Responded _ _) = True"
| "is_responded _ = False"

text \<open>
  The events in which the operator interrupts: a blocking call (the fetch of the seed
  keys, a request, a sleep) that the interruption ends, or the signal between two
  statements. \<open>interrupted\<close> holds of a trace that has one. In an \<open>undisturbed\<close>
  environment the operator never interrupts.
\<close>

fun is_interrupt :: "event \<Rightarrow> bool" where
  "is_interrupt (SeedGet SeedInterrupted) = True"
| "is_interrupt (Http _ Interrupted) = True"
| "is_interrupt (Sleep _ True) = True"
| "is_interrupt Interrupt = True"
| "is_interrupt _ = False"

definition interrupted :: "event list \<Rightarrow> bool" where
  "interrupted t = list_ex is_interrupt t"

definition undisturbed :: "env \<Rightarrow> bool" where
  "undisturbed env \<longleftrightarrow>
     seed_source env \<noteq> SeedInterrupted \<and> (\<forall>n. api env n \<noteq> Interrupted) \<and>
     (\<forall>n. \<not> sleep_interrupted env n) \<and> (\<forall>n. \<not> signal env n)"

text \<open>The requests and the draws: what an attempt does besides opening and closing its
  client and printing.\<close>

fun quiet :: "event \<Rightarrow> bool" where
  "quiet (Http _ _) = True"
| "quiet (Choice _) = True"
| "quiet _ = False"

text \<open>
  The status of a response that \<open>raise_for_status\<close> refuses: the program calls it on
  the responses of its POST requests (the two registrations) and of its GET request (the
  final account info), and on no other.
\<close>

fun rejected :: "event \<Rightarrow> nat option" where
  "rejected (Http (Request m p h b) (Responded st body)) =
     (if (m = POST \<or> m = GET) \<and> \<not> is_success st then Some st else None)"
| "rejected _ = None"

text \<open>
  The invariant of the \<open>try\<close> block, used in the proofs only. The events of a loop
  are all but the fetch of the seed keys, with draws from its pool only; those of an
  attempt that an exception ends are requests and draws, and \<open>calm\<close> ones neither
  interrupt nor are refused. \<open>fits pool r t\<close> relates the result of a block to the
  events it added: nothing interrupts a block that returns, and none of its responses is
  refused; an interruption comes last, after events that do not interrupt; an exception
  comes after events that are calm but for the last, which decides whether it is an HTTP
  status error. \<open>hushed\<close> holds of the rest of a block that can only return or be
  interrupted.
\<close>

fun attempt_event :: "pystr list \<Rightarrow> event \<Rightarrow> bool" where
  "attempt_event pool (Http _ _) = True"
| "attempt_event pool (Choice seq) = (seq = pool)"
| "attempt_event pool _ = False"

fun loop_event :: "pystr list \<Rightarrow> event \<Rightarrow> bool" where
  "loop_event pool (SeedGet _) = False"
| "loop_event pool (Choice seq) = (seq = pool)"
| "loop_event pool _ = True"

definition calm :: "pystr list \<Rightarrow> event \<Rightarrow> bool" where
  "calm pool ev \<longleftrightarrow> attempt_event pool ev \<and> \<not> is_interrupt ev \<and> rejected ev = None"

definition plain :: "exn + 'a \<Rightarrow> bool" where
  "plain r = (case r of Inl e \<Rightarrow> is_Exception e \<and> \<not> is_HTTPStatusError e | Inr _ \<Rightarrow> True)"

fun fits :: "pystr list \<Rightarrow> exn + 'a \<Rightarrow> event list \<Rightarrow> bool" where
  "fits pool (Inr v) t =
     (\<not> interrupted t \<and> list_all (loop_event pool) t \<and> list_all (\<lambda>ev. rejected ev = None) t)"
| "fits pool (Inl e) t =
     ((\<forall>n. e \<noteq> SystemExit n) \<and> list_all (loop_event pool) t \<and>
      (if e = KeyboardInterrupt
       then t \<noteq> [] \<and> is_interrupt (last t) \<and> \<not> interrupted (butlast t)
       else list_all (attempt_event pool) t \<and> list_all (calm pool) (butlast t) \<and>
            (if t = [] then \<not> is_HTTPStatusError e
             else \<not> is_interrupt (last t) \<and>
                  (\<forall>st. rejected (last t) = Some st \<longrightarrow> e = HTTPStatusError st) \<and>
                  (is_HTTPStatusError e \<longrightarrow> rejected (last t) \<noteq> None))))"

definition sound :: "env \<Rightarrow> pystr list \<Rightarrow> 'a prog \<Rightarrow> bool" where
  "sound env pool p \<longleftrightarrow>
     (\<forall>w r w'. p w = (r, w') \<longrightarrow>
        (\<exists>t. trace w' = trace w @ t \<and> fits pool r t) \<and>
        (undisturbed env \<longrightarrow> r \<noteq> Inl KeyboardInterrupt))"

definition hushed :: "env \<Rightarrow> pystr list \<Rightarrow> 'a prog \<Rightarrow> bool" where
  "hushed env pool p \<longleftrightarrow>
     sound env pool p \<and> (\<forall>w e w'. p w = (Inl e, w') \<longrightarrow> e = KeyboardInterrupt)"

text \<open>
  The line and the delay that the \<open>except\<close> clauses give to an exception, by its class.
\<close>

definition failure_line :: "nat \<Rightarrow> exn \<Rightarrow> msg" where
  "failure_line k e =
     (if is_HTTPStatusError e then HTTPErrorLine k max_retries e
      else if is_RequestError e then RequestErrorLine k max_retries e
      else UnexpectedErrorLine k max_retries e)"

definition retry_delay :: "exn \<Rightarrow> nat" where
  "retry_delay e = (if is_HTTPStatusError e \<or> is_RequestError e then 5 else 10)"

text \<open>
  The invariant of the loop, used in the proofs only. \<open>cut_short\<close> holds of the events
  of a loop that an interruption ended: the interruption comes last, or is followed by
  the closing of the client only. \<open>clean\<close> holds of the events of failed attempts that
  were followed by another attempt.
\<close>

definition cut_short :: "event list \<Rightarrow> bool" where
  "cut_short t \<longleftrightarrow>
     (\<exists>pre ev. (t = pre @ [ev] \<or> t = pre @ [ev, ClientClose]) \<and>
        is_interrupt ev \<and> \<not> interrupted pre)"

definition clean :: "pystr list \<Rightarrow> event list \<Rightarrow> bool" where
  "clean pool t \<longleftrightarrow> stdout t = [] \<and> \<not> interrupted t \<and> list_all (loop_event pool) t"

definition loop_post :: "env \<Rightarrow> pystr list \<Rightarrow> world \<Rightarrow> exn + json \<Rightarrow> world \<Rightarrow> bool" where
  "loop_post env pool w r w' =
     (case r of
        Inr lic \<Rightarrow>
          (\<exists>w1 t0. attempt env pool w1 = (Inr lic, w') \<and> trace w1 = trace w @ t0 \<and> clean pool t0)
      | Inl e \<Rightarrow>
          (\<exists>t. trace w' = trace w @ t \<and> list_all (loop_event pool) t \<and>
             (e = KeyboardInterrupt \<and> cut_short t \<and> \<not> undisturbed env \<or>
              e = SystemExit 1 \<and> \<not> interrupted t \<and> stdout t = [])))"

subsection \<open>The pool in the words of the specification\<close>

text \<open>
  The pool as the specification words it: the body is split on commas, every segment is
  trimmed of white space, and the segments that are empty after trimming are dropped.
\<close>

function spec_segments :: "pystr \<Rightarrow> pystr list" where
  "spec_segments body =
     (case dropWhile (\<lambda>c. c \<noteq> comma) body of
        [] \<Rightarrow> [takeWhile (\<lambda>c. c \<noteq> comma) body]
      | _ # rest \<Rightarrow> takeWhile (\<lambda>c. c \<noteq> comma) body # spec_segments rest)"
  by pat_completeness auto
termination
proof (relation "measure length")
  show "wf (measure length)" by simp
next
  fix body :: pystr and x rest
  assume "dropWhile (\<lambda>c. c \<noteq> comma) body = x # rest"
  then have "length (x # rest) \<le> length body"
    by (metis length_dropWhile_le)
  then show "(rest, body) \<in> measure length" by simp
qed

definition spec_trim :: "pystr \<Rightarrow> pystr" where
  "spec_trim s = dropWhile isspace (rev (dropWhile isspace (rev s)))"

definition spec_parse_pool :: "pystr \<Rightarrow> pystr list" where
  "spec_parse_pool body = filter (\<lambda>s. s \<noteq> []) (map spec_trim (spec_segments body))"

subsection \<open>Environments\<close>

text \<open>
  Scripted environments. \<open>script xs d\<close> answers the n-th request with the n-th entry of
  \<open>xs\<close> and with \<open>d\<close> once the entries are used up.
\<close>

definition script :: "'a list \<Rightarrow> 'a \<Rightarrow> nat \<Rightarrow> 'a" where
  "script xs d n = (if n < length xs then xs ! n else d)"

definition reg_a :: json where
  "reg_a = JObj [(py ''id'', JStr (py ''A1'')),
                 (py ''account'', JObj [(py ''license'', JStr (py ''LIC-ORIG''))]),
                 (py ''token'', JStr (py ''T1''))]"

definition reg_b :: json where
  "reg_b = JObj [(py ''id'', JStr (py ''B1'')), (py ''token'', JStr (py ''T2''))]"

definition info_ok :: json where
  "info_ok = JObj [(py ''account_type'', JStr (py ''limited'')),
                   (py ''referral_count'', JNum 10),
                   (py ''license'', JStr (py ''LIC-ORIG''))]"

text \<open>The mocked provider of the specification's end-to-end scenario.\<close>

definition env_ok :: env where
  "env_ok =
     \<lparr>seed_source = SeedResponse 200 (Some (py ''SEED-1'')),
      api = script [Responded 200 (Some reg_a), Responded 200 (Some reg_b),
                    Responded 200 None, Responded 200 None, Responded 200 None,
                    Responded 200 None, Responded 200 (Some info_ok), Responded 200 None]
              Failed,
      random_source = (\<lambda>_. 7),
      sleep_interrupted = (\<lambda>_. False),
      signal = (\<lambda>_. False),
      unprintable = (\<lambda>_. False)\<rparr>"

text \<open>The seed-key source answers 200 with an empty body; every registration succeeds.\<close>

definition env_empty_body :: env where
  "env_empty_body =
     \<lparr>seed_source = SeedResponse 200 (Some []),
      api = (\<lambda>_. Responded 200 (Some reg_a)),
      random_source = (\<lambda>_. 0),
      sleep_interrupted = (\<lambda>_. False),
      signal = (\<lambda>_. False),
      unprintable = (\<lambda>_. False)\<rparr>"

text \<open>The operator interrupts the second registration.\<close>

definition env_interrupted :: env where
  "env_interrupted =
     \<lparr>seed_source = SeedFailed,
      api = script [Responded 200 (Some reg_a), Interrupted] Failed,
      random_source = (\<lambda>_. 0),
      sleep_interrupted = (\<lambda>_. False),
      signal = (\<lambda>_. False),
      unprintable = (\<lambda>_. False)\<rparr>"

text \<open>
  The first registration of the three attempts answers 200 without JSON, then 500, then
  the connection fails.
\<close>

definition env_all_fail :: env where
  "env_all_fail =
     \<lparr>seed_source = SeedFailed,
      api = script [Responded 200 None, Responded 500 None] Failed,
      random_source = (\<lambda>_. 0),
      sleep_interrupted = (\<lambda>_. False),
      signal = (\<lambda>_. False),
      unprintable = (\<lambda>_. False)\<rparr>"


text \<open>The provider's final account info carries another license than the registration.\<close>

definition info_other :: json where
  "info_other = JObj [(py ''account_type'', JStr (py ''limited'')),
                      (py ''referral_count'', JNum 10),
                      (py ''license'', JStr (py ''LIC-NEW''))]"

definition env_other_license :: env where
  "env_other_license =
     \<lparr>seed_source = SeedResponse 200 (Some (py ''SEED-1'')),
      api = script [Responded 200 (Some reg_a), Responded 200 (Some reg_b),
                    Responded 200 None, Responded 200 None, Responded 200 None,
                    Responded 200 None, Responded 200 (Some info_other), Responded 200 None]
              Failed,
      random_source = (\<lambda>_. 7),
      sleep_interrupted = (\<lambda>_. False),
      signal = (\<lambda>_. False),
      unprintable = (\<lambda>_. False)\<rparr>"





text \<open>
  The mocked provider again; the operator's signal arrives when the block of the first
  attempt is left, after the three prints (the statements before it are the entry of the
  \<open>with\<close> statement and the 23 statements of the block).
\<close>

definition env_late_interrupt :: env where
  "env_late_interrupt = env_ok\<lparr>signal := (\<lambda>n. n = 24)\<rparr>"



subsection \<open>Projections of a trace\<close>

text \<open>
  The answers to the GET requests (the account-info read-backs), the answers to the POST
  requests (the registrations) and the bodies of the PUT requests, in the order of the run.
\<close>

definition info_responses :: "event list \<Rightarrow> api_outcome list" where
  "info_responses t =
     concat (map (\<lambda>ev. case ev of Http (Request GET p h b) out \<Rightarrow> [out] | _ \<Rightarrow> []) t)"

definition registrations :: "event list \<Rightarrow> api_outcome list" where
  "registrations t =
     concat (map (\<lambda>ev. case ev of Http (Request POST p h b) out \<Rightarrow> [out] | _ \<Rightarrow> []) t)"

definition put_bodies :: "event list \<Rightarrow> json option list" where
  "put_bodies t =
     concat (map (\<lambda>ev. case ev of Http (Request PUT p h b) out \<Rightarrow> [b] | _ \<Rightarrow> []) t)"


section \<open>Properties of the steps\<close>


subsection \<open>An attempt\<close>

lemma bind_ret [simp]: "bind (ret x) f w = f x w"
  by (simp add: bind_def ret_def)

lemma bind_raise [simp]: "bind (raise e) f w = (Inl e, w)"
  by (simp add: bind_def raise_def)

lemma bind_lift [simp]:
  "bind (lift r) f w = (case r of Inl e \<Rightarrow> (Inl e, w) | Inr x \<Rightarrow> f x w)"
  by (simp add: bind_def lift_def split: sum.splits)

lemma bind_emit [simp]: "bind (emit ev) f w = f () (w\<lparr>trace := trace w @ [ev]\<rparr>)"
  by (simp add: bind_def emit_def)

lemma step_unfold:
  "step env m f w =
     (if signal env (steps w)
      then (Inl KeyboardInterrupt, w\<lparr>steps := steps w + 1, trace := trace w @ [Interrupt]\<rparr>)
      else bind m f (w\<lparr>steps := steps w + 1\<rparr>))"
  by (simp add: step_def bind_def checkpoint_def)

lemma bind_checkpoint:
  "bind (checkpoint env) f w =
     (if signal env (steps w)
      then (Inl KeyboardInterrupt, w\<lparr>steps := steps w + 1, trace := trace w @ [Interrupt]\<rparr>)
      else f () (w\<lparr>steps := steps w + 1\<rparr>))"
  by (simp add: bind_def checkpoint_def)

lemma bind_print_stdout:
  "bind (print_stdout env v) f w =
     (if unprintable env v then (Inl UnicodeEncodeError, w)
      else f () (w\<lparr>trace := trace w @ [Stdout v]\<rparr>))"
  by (simp add: print_stdout_def)

lemma bind_client_request:
  "bind (client_request env rq) f w =
     (case api env (requests_sent w) of
        Responded st body \<Rightarrow>
          f \<lparr>status_code = st, body_json = body\<rparr>
            (w\<lparr>requests_sent := requests_sent w + 1,
               trace := trace w @ [Http rq (api env (requests_sent w))]\<rparr>)
      | Failed \<Rightarrow> (Inl RequestError,
            w\<lparr>requests_sent := requests_sent w + 1,
               trace := trace w @ [Http rq (api env (requests_sent w))]\<rparr>)
      | Unsendable \<Rightarrow> (Inl InvalidURL,
            w\<lparr>requests_sent := requests_sent w + 1,
               trace := trace w @ [Http rq (api env (requests_sent w))]\<rparr>)
      | Interrupted \<Rightarrow> (Inl KeyboardInterrupt,
            w\<lparr>requests_sent := requests_sent w + 1,
               trace := trace w @ [Http rq (api env (requests_sent w))]\<rparr>))"
  by (simp add: bind_def client_request_def Let_def split: api_outcome.splits)

lemma bind_random_choice:
  "bind (random_choice env seq) f w =
     (if seq = [] then (Inl IndexError, w\<lparr>trace := trace w @ [Choice seq]\<rparr>)
      else f (seq ! (random_source env (draws w) mod length seq))
             (w\<lparr>trace := trace w @ [Choice seq], draws := draws w + 1\<rparr>))"
  by (simp add: bind_def random_choice_def Let_def)

lemma bind_time_sleep:
  "bind (time_sleep env secs) f w =
     (if sleep_interrupted env (naps w)
      then (Inl KeyboardInterrupt, w\<lparr>naps := naps w + 1, trace := trace w @ [Sleep secs True]\<rparr>)
      else f () (w\<lparr>naps := naps w + 1, trace := trace w @ [Sleep secs False]\<rparr>))"
  by (simp add: bind_def time_sleep_def Let_def)

lemma attempt_success:
  assumes "attempt env base_keys w = (Inr lic, w')"
  shows "\<exists>sa a id1 license token1 sb b id2 token2 sg i at rc.
    api env (requests_sent w) = Responded sa (Some a) \<and> is_success sa \<and>
    getitem a (py ''id'') = Inr id1 \<and>
    sbind (getitem a (py ''account'')) (\<lambda>a. getitem a (py ''license'')) = Inr license \<and>
    getitem a (py ''token'') = Inr token1 \<and>
    api env (requests_sent w + 1) = Responded sb (Some b) \<and> is_success sb \<and>
    getitem b (py ''id'') = Inr id2 \<and>
    getitem b (py ''token'') = Inr token2 \<and>
    base_keys \<noteq> [] \<and>
    api env (requests_sent w + 6) = Responded sg (Some i) \<and> is_success sg \<and>
    dict_get i (py ''account_type'') (JStr []) = Inr at \<and>
    dict_get i (py ''referral_count'') (JNum 0) = Inr rc \<and>
    getitem i (py ''license'') = Inr lic \<and>
    is_responded (api env (requests_sent w + 2)) \<and>
    is_responded (api env (requests_sent w + 3)) \<and>
    is_responded (api env (requests_sent w + 4)) \<and>
    is_responded (api env (requests_sent w + 5)) \<and>
    is_responded (api env (requests_sent w + 7)) \<and>
    \<not> unprintable env lic \<and>
    trace w' = trace w @
      [ClientOpen,
       Http (Request POST Reg [] None) (api env (requests_sent w)),
       Http (Request POST Reg [] None) (api env (requests_sent w + 1)),
       Http (Request PATCH (RegId id1)
               [(''Content-Type'', Literal ''application/json; charset=UTF-8''),
                (''Authorization'', Bearer token1)]
               (Some (JObj [(py ''referrer'', id2)]))) (api env (requests_sent w + 2)),
       Http (Request DELETE (RegId id2) [(''Authorization'', Bearer token2)] None)
            (api env (requests_sent w + 3)),
       Choice base_keys,
       Http (Request PUT (RegIdAccount id1)
               [(''Content-Type'', Literal ''application/json; charset=UTF-8''),
                (''Authorization'', Bearer token1)]
               (Some (JObj [(py ''license'',
                  JStr (base_keys ! (random_source env (draws w) mod length base_keys)))])))
            (api env (requests_sent w + 4)),
       Http (Request PUT (RegIdAccount id1)
               [(''Content-Type'', Literal ''application/json; charset=UTF-8''),
                (''Authorization'', Bearer token1)]
               (Some (JObj [(py ''license'', license)])))
            (api env (requests_sent w + 5)),
       Http (Request GET (RegIdAccount id1) [(''Authorization'', Bearer token1)] None)
            (api env (requests_sent w + 6)),
       Http (Request DELETE (RegId id1) [(''Authorization'', Bearer token1)] None)
            (api env (requests_sent w + 7)),
       Stdout lic, Stderr (AccountTypeLine at), Stderr (DataCountLine rc), ClientClose]"
  using assms
  unfolding attempt_def with_client_def Let_def
  apply (simp add: step_unfold bind_checkpoint checkpoint_def bind_print_stdout
       bind_client_request bind_random_choice raise_for_status_def r_json_def ret_def
       split: api_outcome.splits sum.splits if_splits option.splits prod.splits)
  apply (auto simp: sbind_def numeral_eq_Suc split: sum.splits)
  done

lemma stdout_append [simp]: "stdout (s @ t) = stdout s @ stdout t"
  by (simp add: stdout_def)

lemma stderr_append [simp]: "stderr (s @ t) = stderr s @ stderr t"
  by (simp add: stderr_def)

lemma interrupted_append [simp]: "interrupted (s @ t) \<longleftrightarrow> interrupted s \<or> interrupted t"
  by (auto simp: interrupted_def list_ex_iff)

lemma interrupted_Nil [simp]: "\<not> interrupted []"
  by (simp add: interrupted_def)

lemma interrupted_Cons [simp]: "interrupted (ev # t) \<longleftrightarrow> is_interrupt ev \<or> interrupted t"
  by (simp add: interrupted_def)

lemma stdout_Nil [simp]: "stdout [] = []"
  by (simp add: stdout_def)

lemma stdout_Cons [simp]:
  "stdout (ev # t) = (case ev of Stdout v \<Rightarrow> [v] | _ \<Rightarrow> []) @ stdout t"
  by (simp add: stdout_def)

lemma stderr_Nil [simp]: "stderr [] = []"
  by (simp add: stderr_def)

lemma stderr_Cons [simp]:
  "stderr (ev # t) = (case ev of Stderr m \<Rightarrow> [m] | _ \<Rightarrow> []) @ stderr t"
  by (simp add: stderr_def)

lemma attempt_event_loop_event: "attempt_event pool ev \<Longrightarrow> loop_event pool ev"
  by (cases ev) auto

lemma fits_Cons: "calm pool ev \<Longrightarrow> fits pool r t \<Longrightarrow> fits pool r (ev # t)"
  by (cases r) (auto simp: calm_def attempt_event_loop_event)

lemma fits_Cons_print:
  assumes "ev = Stdout v \<or> ev = Stderr l" "fits pool r t"
    "\<And>e. r = Inl e \<Longrightarrow> e = KeyboardInterrupt"
  shows "fits pool r (ev # t)"
  using assms by (cases r) auto

lemma fits_interrupt: "fits pool (Inl KeyboardInterrupt) [Interrupt]"
  by simp

lemma soundI:
  assumes "\<And>w r w'. p w = (r, w') \<Longrightarrow>
     (\<exists>t. trace w' = trace w @ t \<and> fits pool r t) \<and>
     (undisturbed env \<longrightarrow> r \<noteq> Inl KeyboardInterrupt)"
  shows "sound env pool p"
  using assms unfolding sound_def by blast

lemma soundD:
  assumes "sound env pool p" "p w = (r, w')"
  shows "\<exists>t. trace w' = trace w @ t \<and> fits pool r t"
    "undisturbed env \<Longrightarrow> r \<noteq> Inl KeyboardInterrupt"
  using assms unfolding sound_def by blast+

text \<open>What follows an event that the step has added.\<close>

lemma sound_after:
  assumes "sound env pool q" "q w1 = (r, w')" "trace w1 = trace w @ [ev]" "calm pool ev"
  shows "(\<exists>t. trace w' = trace w @ t \<and> fits pool r t) \<and>
     (undisturbed env \<longrightarrow> r \<noteq> Inl KeyboardInterrupt)"
proof -
  from soundD(1) [OF assms(1,2)] obtain t where
    "trace w' = (trace w @ [ev]) @ t" "fits pool r t"
    using assms(3) by auto
  then have "trace w' = trace w @ (ev # t) \<and> fits pool r (ev # t)"
    using assms(4) fits_Cons by simp
  then show ?thesis using soundD(2) [OF assms(1,2)] by blast
qed

lemma sound_step:
  assumes "sound env pool (bind m f)"
  shows "sound env pool (step env m f)"
proof (rule soundI)
  fix w r w'
  assume run: "step env m f w = (r, w')"
  show "(\<exists>t. trace w' = trace w @ t \<and> fits pool r t) \<and>
     (undisturbed env \<longrightarrow> r \<noteq> Inl KeyboardInterrupt)"
  proof (cases "signal env (steps w)")
    case True
    with run have "r = Inl KeyboardInterrupt" "trace w' = trace w @ [Interrupt]"
      by (auto simp: step_unfold)
    moreover have "\<not> undisturbed env" using True by (auto simp: undisturbed_def)
    ultimately show ?thesis using fits_interrupt by blast
  next
    case False
    with run have "bind m f (w\<lparr>steps := steps w + 1\<rparr>) = (r, w')"
      by (simp add: step_unfold)
    from soundD [OF assms this] show ?thesis by simp
  qed
qed

lemma sound_checked:
  assumes "\<And>r. sound env pool (f r)" "m = POST \<or> m = GET"
  shows "sound env pool (bind (client_request env (Request m p h b))
           (\<lambda>r. step env (lift (raise_for_status r)) (\<lambda>_. f r)))"
proof (rule soundI)
  define rq where "rq = Request m p h b"
  fix w r w'
  assume "bind (client_request env (Request m p h b))
           (\<lambda>r. step env (lift (raise_for_status r)) (\<lambda>_. f r)) w = (r, w')"
  then have run: "bind (client_request env rq)
           (\<lambda>r. step env (lift (raise_for_status r)) (\<lambda>_. f r)) w = (r, w')"
    by (simp add: rq_def)
  show "(\<exists>t. trace w' = trace w @ t \<and> fits pool r t) \<and>
     (undisturbed env \<longrightarrow> r \<noteq> Inl KeyboardInterrupt)"
  proof (cases "api env (requests_sent w)")
    case (Responded st body)
    define w1 where "w1 = w\<lparr>requests_sent := requests_sent w + 1,
        trace := trace w @ [Http rq (Responded st body)]\<rparr>"
    have ni: "\<not> is_interrupt (Http rq (Responded st body))" by simp
    show ?thesis
    proof (cases "signal env (steps w1)")
      case True
      with Responded run have "r = Inl KeyboardInterrupt"
        "trace w' = trace w @ [Http rq (Responded st body), Interrupt]"
        by (auto simp: bind_client_request step_unfold w1_def)
      moreover have "\<not> undisturbed env" using True by (auto simp: undisturbed_def)
      ultimately show ?thesis by auto
    next
      case False
      show ?thesis
      proof (cases "is_success st")
        case True
        with Responded run False have
          "f \<lparr>status_code = st, body_json = body\<rparr> (w1\<lparr>steps := steps w1 + 1\<rparr>) = (r, w')"
          by (simp add: bind_client_request step_unfold raise_for_status_def w1_def)
        moreover have "calm pool (Http rq (Responded st body))"
          using True by (simp add: calm_def rq_def)
        moreover have "trace (w1\<lparr>steps := steps w1 + 1\<rparr>) = trace w @ [Http rq (Responded st body)]"
          by (simp add: w1_def)
        ultimately show ?thesis
          using sound_after [OF assms(1)] by blast
      next
        case no: False
        with Responded run False have "r = Inl (HTTPStatusError st)"
          "trace w' = trace w @ [Http rq (Responded st body)]"
          by (auto simp: bind_client_request step_unfold raise_for_status_def w1_def)
        then show ?thesis using no assms(2) by (auto simp: rq_def)
      qed
    qed
  next
    case Failed
    with run show ?thesis by (auto simp: bind_client_request rq_def)
  next
    case Unsendable
    with run show ?thesis by (auto simp: bind_client_request rq_def)
  next
    case Interrupted
    with run have "r = Inl KeyboardInterrupt" "trace w' = trace w @ [Http rq Interrupted]"
      by (auto simp: bind_client_request)
    moreover have "\<not> undisturbed env" using Interrupted by (auto simp: undisturbed_def)
    ultimately show ?thesis by auto
  qed
qed

lemmas sound_post = sound_checked [where m = POST, simplified]

lemmas sound_get = sound_checked [where m = GET, simplified]

lemma sound_unchecked:
  assumes "\<And>r. sound env pool (f r)" "m = PATCH \<or> m = PUT \<or> m = DELETE"
  shows "sound env pool (bind (client_request env (Request m p h b)) f)"
proof (rule soundI)
  fix w r w'
  assume run: "bind (client_request env (Request m p h b)) f w = (r, w')"
  show "(\<exists>t. trace w' = trace w @ t \<and> fits pool r t) \<and>
     (undisturbed env \<longrightarrow> r \<noteq> Inl KeyboardInterrupt)"
  proof (cases "api env (requests_sent w)")
    case (Responded st body)
    define w1 where "w1 = w\<lparr>requests_sent := requests_sent w + 1,
        trace := trace w @ [Http (Request m p h b) (Responded st body)]\<rparr>"
    from Responded run have "f \<lparr>status_code = st, body_json = body\<rparr> w1 = (r, w')"
      by (simp add: bind_client_request w1_def)
    moreover have "calm pool (Http (Request m p h b) (Responded st body))"
      using assms(2) by (auto simp: calm_def)
    moreover have "trace w1 = trace w @ [Http (Request m p h b) (Responded st body)]"
      by (simp add: w1_def)
    ultimately show ?thesis
      using sound_after [OF assms(1)] by blast
  next
    case Failed
    with run show ?thesis by (auto simp: bind_client_request)
  next
    case Unsendable
    with run show ?thesis by (auto simp: bind_client_request)
  next
    case Interrupted
    with run have "r = Inl KeyboardInterrupt"
      "trace w' = trace w @ [Http (Request m p h b) Interrupted]"
      by (auto simp: bind_client_request)
    moreover have "\<not> undisturbed env" using Interrupted by (auto simp: undisturbed_def)
    ultimately show ?thesis by auto
  qed
qed

lemmas sound_patch = sound_unchecked [where m = PATCH, simplified]

lemmas sound_put = sound_unchecked [where m = PUT, simplified]

lemmas sound_delete = sound_unchecked [where m = DELETE, simplified]

lemma sound_lift:
  assumes "\<And>x. sound env pool (f x)" "plain r0"
  shows "sound env pool (bind (lift r0) f)"
proof (rule soundI)
  fix w r w'
  assume run: "bind (lift r0) f w = (r, w')"
  show "(\<exists>t. trace w' = trace w @ t \<and> fits pool r t) \<and>
     (undisturbed env \<longrightarrow> r \<noteq> Inl KeyboardInterrupt)"
  proof (cases r0)
    case (Inl e)
    with run assms(2) show ?thesis by (cases e) (auto simp: plain_def)
  next
    case (Inr x)
    with run soundD [OF assms(1), of x w r w'] show ?thesis by simp
  qed
qed

lemma sound_choice:
  assumes "\<And>x. sound env seq (f x)"
  shows "sound env seq (bind (random_choice env seq) f)"
proof (rule soundI)
  fix w r w'
  assume run: "bind (random_choice env seq) f w = (r, w')"
  show "(\<exists>t. trace w' = trace w @ t \<and> fits seq r t) \<and>
     (undisturbed env \<longrightarrow> r \<noteq> Inl KeyboardInterrupt)"
  proof (cases "seq = []")
    case True
    with run show ?thesis by (auto simp: bind_random_choice calm_def)
  next
    case False
    define w1 where "w1 = w\<lparr>trace := trace w @ [Choice seq], draws := draws w + 1\<rparr>"
    from False run have "f (seq ! (random_source env (draws w) mod length seq)) w1 = (r, w')"
      by (simp add: bind_random_choice w1_def)
    moreover have "calm seq (Choice seq)" by (simp add: calm_def)
    moreover have "trace w1 = trace w @ [Choice seq]" by (simp add: w1_def)
    ultimately show ?thesis
      using sound_after [OF assms] by blast
  qed
qed

text \<open>The prints and what follows them.\<close>

lemma hushedI:
  assumes "\<And>w r w'. p w = (r, w') \<Longrightarrow>
     (\<exists>t. trace w' = trace w @ t \<and> fits pool r t) \<and>
     (undisturbed env \<longrightarrow> r \<noteq> Inl KeyboardInterrupt) \<and>
     (\<forall>e. r = Inl e \<longrightarrow> e = KeyboardInterrupt)"
  shows "hushed env pool p"
  using assms unfolding hushed_def sound_def by blast

lemma hushedD:
  assumes "hushed env pool p" "p w = (r, w')"
  shows "\<exists>t. trace w' = trace w @ t \<and> fits pool r t"
    "undisturbed env \<Longrightarrow> r \<noteq> Inl KeyboardInterrupt"
    "\<And>e. r = Inl e \<Longrightarrow> e = KeyboardInterrupt"
  using assms unfolding hushed_def sound_def by blast+

lemma hushed_ret: "hushed env pool (ret v)"
  by (rule hushedI) (auto simp: ret_def)

lemma hushed_step:
  assumes "hushed env pool (bind m f)"
  shows "hushed env pool (step env m f)"
proof (rule hushedI)
  fix w r w'
  assume run: "step env m f w = (r, w')"
  show "(\<exists>t. trace w' = trace w @ t \<and> fits pool r t) \<and>
     (undisturbed env \<longrightarrow> r \<noteq> Inl KeyboardInterrupt) \<and>
     (\<forall>e. r = Inl e \<longrightarrow> e = KeyboardInterrupt)"
  proof (cases "signal env (steps w)")
    case True
    with run have "r = Inl KeyboardInterrupt" "trace w' = trace w @ [Interrupt]"
      by (auto simp: step_unfold)
    moreover have "\<not> undisturbed env" using True by (auto simp: undisturbed_def)
    ultimately show ?thesis using fits_interrupt by blast
  next
    case False
    with run have "bind m f (w\<lparr>steps := steps w + 1\<rparr>) = (r, w')"
      by (simp add: step_unfold)
    from hushedD [OF assms this] show ?thesis by simp
  qed
qed

lemma hushed_after:
  assumes "hushed env pool q" "q w1 = (r, w')" "trace w1 = trace w @ [ev]"
    "ev = Stdout v \<or> ev = Stderr l"
  shows "(\<exists>t. trace w' = trace w @ t \<and> fits pool r t) \<and>
     (undisturbed env \<longrightarrow> r \<noteq> Inl KeyboardInterrupt) \<and>
     (\<forall>e. r = Inl e \<longrightarrow> e = KeyboardInterrupt)"
proof -
  note h = hushedD [OF assms(1,2)]
  from h(1) obtain t where t: "trace w' = (trace w @ [ev]) @ t" "fits pool r t"
    using assms(3) by auto
  have "fits pool r (ev # t)"
    using fits_Cons_print [OF assms(4) t(2)] h(3) by blast
  with t(1) have "trace w' = trace w @ (ev # t) \<and> fits pool r (ev # t)" by simp
  then show ?thesis using h(2,3) by blast
qed

lemma hushed_emit:
  assumes "hushed env pool (f ())"
  shows "hushed env pool (bind (emit (Stderr l)) f)"
proof (rule hushedI)
  fix w r w'
  assume "bind (emit (Stderr l)) f w = (r, w')"
  then have "f () (w\<lparr>trace := trace w @ [Stderr l]\<rparr>) = (r, w')" by simp
  from hushed_after [OF assms this, of w "Stderr l" undefined l]
  show "(\<exists>t. trace w' = trace w @ t \<and> fits pool r t) \<and>
     (undisturbed env \<longrightarrow> r \<noteq> Inl KeyboardInterrupt) \<and>
     (\<forall>e. r = Inl e \<longrightarrow> e = KeyboardInterrupt)"
    by simp
qed

lemma sound_print:
  assumes "hushed env pool (f ())"
  shows "sound env pool (bind (print_stdout env v) f)"
proof (rule soundI)
  fix w r w'
  assume run: "bind (print_stdout env v) f w = (r, w')"
  show "(\<exists>t. trace w' = trace w @ t \<and> fits pool r t) \<and>
     (undisturbed env \<longrightarrow> r \<noteq> Inl KeyboardInterrupt)"
  proof (cases "unprintable env v")
    case True
    with run have "r = Inl UnicodeEncodeError" "trace w' = trace w @ []"
      by (auto simp: bind_print_stdout)
    then show ?thesis by auto
  next
    case False
    with run have "f () (w\<lparr>trace := trace w @ [Stdout v]\<rparr>) = (r, w')"
      by (simp add: bind_print_stdout)
    from hushed_after [OF assms this, of w "Stdout v" v undefined] show ?thesis by simp
  qed
qed

lemma plain_getitem: "plain (getitem j k)"
  by (cases j) (auto simp: plain_def split: option.splits)

lemma plain_dict_get: "plain (dict_get j k d)"
  by (cases j) (auto simp: plain_def split: option.splits)

lemma plain_r_json: "plain (r_json r)"
  by (auto simp: plain_def r_json_def split: option.splits)

lemma plain_sbind: "plain m \<Longrightarrow> (\<And>x. plain (f x)) \<Longrightarrow> plain (sbind m f)"
  by (cases m) (auto simp: plain_def sbind_def)

lemmas plain_intros = plain_sbind plain_r_json plain_getitem plain_dict_get

lemma attempt_block:
  "\<exists>block. attempt env base_keys = with_client env block \<and> sound env base_keys block"
  unfolding attempt_def Let_def
  apply (rule exI, rule conjI, rule refl)
  apply (intro sound_step sound_post sound_get sound_patch sound_put sound_delete sound_lift
      sound_choice sound_print hushed_step hushed_emit hushed_ret plain_intros)
  done

lemma attempt_events_silent:
  assumes "list_all (attempt_event pool) t"
  shows "stdout t = [] \<and> stderr t = [] \<and> list_all (loop_event pool) t \<and> list_all quiet t \<and>
    Stderr m \<notin> set t"
  using assms
proof (induction t)
  case Nil
  then show ?case by simp
next
  case (Cons ev t)
  then show ?case by (cases ev) auto
qed

lemma calm_events:
  assumes "list_all (calm pool) t"
  shows "list_all (attempt_event pool) t \<and> \<not> interrupted t \<and> list_all (\<lambda>ev. rejected ev = None) t"
  using assms by (induction t) (auto simp: calm_def)

lemma not_Exception_cases: "\<not> is_Exception e \<longleftrightarrow> e = KeyboardInterrupt \<or> (\<exists>n. e = SystemExit n)"
  by (cases e) auto

lemma fits_failure:
  assumes "fits pool (Inl e) t"
  shows "list_all (loop_event pool) t" "\<And>n. e \<noteq> SystemExit n"
    "e \<noteq> KeyboardInterrupt \<Longrightarrow> list_all (attempt_event pool) t \<and> \<not> interrupted t \<and> is_Exception e"
    "e = KeyboardInterrupt \<Longrightarrow> t \<noteq> [] \<and> is_interrupt (last t) \<and> \<not> interrupted (butlast t)"
proof -
  show "list_all (loop_event pool) t" "\<And>n. e \<noteq> SystemExit n"
    using assms by auto
  have split: "t \<noteq> [] \<Longrightarrow> interrupted t \<longleftrightarrow> interrupted (butlast t) \<or> is_interrupt (last t)"
    using interrupted_append [of "butlast t" "[last t]"] by simp
  show "e \<noteq> KeyboardInterrupt \<Longrightarrow>
      list_all (attempt_event pool) t \<and> \<not> interrupted t \<and> is_Exception e"
  proof -
    assume ne: "e \<noteq> KeyboardInterrupt"
    with assms have a: "list_all (attempt_event pool) t" "list_all (calm pool) (butlast t)"
      "t \<noteq> [] \<Longrightarrow> \<not> is_interrupt (last t)"
      by (auto split: if_splits)
    have "\<not> interrupted (butlast t)" using calm_events [OF a(2)] by simp
    then have "\<not> interrupted t" using split a(3) by (cases "t = []") auto
    moreover have "is_Exception e"
      using ne assms not_Exception_cases [of e] by auto
    ultimately show ?thesis using a(1) by simp
  qed
  show "e = KeyboardInterrupt \<Longrightarrow> t \<noteq> [] \<and> is_interrupt (last t) \<and> \<not> interrupted (butlast t)"
    using assms by auto
qed

lemma fits_quiet: "fits pool r t \<Longrightarrow> r \<noteq> Inl KeyboardInterrupt \<Longrightarrow> \<not> interrupted t"
  using fits_failure(3) by (cases r) auto

lemma fits_accepted: "fits pool (Inr v) t \<Longrightarrow> ev \<in> set t \<Longrightarrow> rejected ev = None"
  by (simp add: list_all_iff)

lemma fits_loop_events: "fits pool r t \<Longrightarrow> list_all (loop_event pool) t"
  by (cases r) auto

lemma with_client_cases:
  assumes "with_client env block w = (r, w')"
  obtains
    (early) "signal env (steps w)" "r = Inl KeyboardInterrupt"
      "trace w' = trace w @ [Interrupt]"
  | (inside) w1 wb where "trace w1 = trace w @ [ClientOpen]"
      "block w1 = (Inl KeyboardInterrupt, wb)" "r = Inl KeyboardInterrupt"
      "trace w' = trace wb @ [ClientClose]"
  | (closing) w1 rb wb where "trace w1 = trace w @ [ClientOpen]"
      "block w1 = (rb, wb)" "rb \<noteq> Inl KeyboardInterrupt" "signal env (steps wb)"
      "r = Inl KeyboardInterrupt" "trace w' = trace wb @ [Interrupt, ClientClose]"
  | (left) w1 wb where "trace w1 = trace w @ [ClientOpen]"
      "block w1 = (r, wb)" "r \<noteq> Inl KeyboardInterrupt"
      "trace w' = trace wb @ [ClientClose]"
proof (cases "signal env (steps w)")
  case True
  with assms have "r = Inl KeyboardInterrupt" "trace w' = trace w @ [Interrupt]"
    by (auto simp: with_client_def bind_def checkpoint_def)
  with True show ?thesis by (rule early)
next
  case False
  define w1 where "w1 = w\<lparr>steps := steps w + 1, trace := trace w @ [ClientOpen]\<rparr>"
  have t1: "trace w1 = trace w @ [ClientOpen]" by (simp add: w1_def)
  obtain rb wb where b: "block w1 = (rb, wb)" by (cases "block w1")
  from assms False b have run:
    "(if rb = Inl KeyboardInterrupt then (rb, wb\<lparr>trace := trace wb @ [ClientClose]\<rparr>)
      else (case checkpoint env wb of
              (Inl e, w2) \<Rightarrow> (Inl e, w2\<lparr>trace := trace w2 @ [ClientClose]\<rparr>)
            | (Inr u, w2) \<Rightarrow> (rb, w2\<lparr>trace := trace w2 @ [ClientClose]\<rparr>))) = (r, w')"
    by (simp add: with_client_def bind_def checkpoint_def w1_def)
  show ?thesis
  proof (cases "rb = Inl KeyboardInterrupt")
    case True
    with run b have "block w1 = (Inl KeyboardInterrupt, wb)" "r = Inl KeyboardInterrupt"
      "trace w' = trace wb @ [ClientClose]"
      by auto
    with t1 show ?thesis by (rule inside)
  next
    case nk: False
    show ?thesis
    proof (cases "signal env (steps wb)")
      case True
      with run nk have "r = Inl KeyboardInterrupt" "trace w' = trace wb @ [Interrupt, ClientClose]"
        by (auto simp: checkpoint_def)
      with t1 b nk True show ?thesis by (rule closing)
    next
      case False
      with run nk have "r = rb" "trace w' = trace wb @ [ClientClose]"
        by (auto simp: checkpoint_def)
      with t1 b nk show ?thesis by (intro left [of w1 wb]) simp_all
    qed
  qed
qed

lemma cut_shortI:
  assumes "is_interrupt ev" "\<not> interrupted pre" "t = pre @ [ev] \<or> t = pre @ [ev, ClientClose]"
  shows "cut_short t"
  using assms unfolding cut_short_def by blast

lemma attempt_shape:
  assumes "attempt env pool w = (r, w')"
  shows "\<exists>t. trace w' = trace w @ t \<and> list_all (loop_event pool) t \<and>
     (undisturbed env \<longrightarrow> r \<noteq> Inl KeyboardInterrupt) \<and>
     (case r of
        Inr v \<Rightarrow> \<not> interrupted t \<and> (\<forall>ev\<in>set t. rejected ev = None)
      | Inl e \<Rightarrow> (\<forall>n. e \<noteq> SystemExit n) \<and>
          (if e = KeyboardInterrupt then cut_short t
           else \<exists>ta. t = ClientOpen # ta @ [ClientClose] \<and> fits pool (Inl e) ta))"
proof -
  from attempt_block obtain block where
    a: "attempt env pool = with_client env block" and s: "sound env pool block"
    by blast
  from assms have "with_client env block w = (r, w')" by (simp add: a)
  then show ?thesis
  proof (cases rule: with_client_cases)
    case early
    have "cut_short [Interrupt]" by (rule cut_shortI [of Interrupt "[]"]) simp_all
    moreover have "\<not> undisturbed env" using early(1) by (auto simp: undisturbed_def)
    ultimately show ?thesis using early(2,3) by auto
  next
    case (inside w1 wb)
    from soundD [OF s inside(2)] obtain tb where
      tb: "trace wb = trace w1 @ tb" "fits pool (Inl KeyboardInterrupt) tb"
      and u: "\<not> undisturbed env"
      by auto
    note ff = fits_failure(4) [OF tb(2) refl]
    have "tb = butlast tb @ [last tb]" using ff by simp
    then have "ClientOpen # tb @ [ClientClose] = (ClientOpen # butlast tb) @ [last tb, ClientClose]"
      by (metis append_Cons append_assoc append_Nil)
    then have "cut_short (ClientOpen # tb @ [ClientClose])"
      using ff by (intro cut_shortI [of "last tb" "ClientOpen # butlast tb"]) simp_all
    moreover have "trace w' = trace w @ ClientOpen # tb @ [ClientClose]"
      using inside(1,4) tb(1) by simp
    moreover have "list_all (loop_event pool) (ClientOpen # tb @ [ClientClose])"
      using fits_loop_events [OF tb(2)] by simp
    ultimately show ?thesis using inside(3) u by auto
  next
    case (closing w1 rb wb)
    from soundD(1) [OF s closing(2)] obtain tb where
      tb: "trace wb = trace w1 @ tb" "fits pool rb tb"
      by auto
    have "\<not> interrupted tb" using fits_quiet [OF tb(2) closing(3)] .
    then have "cut_short (ClientOpen # tb @ [Interrupt, ClientClose])"
      by (intro cut_shortI [of Interrupt "ClientOpen # tb"]) simp_all
    moreover have "trace w' = trace w @ ClientOpen # tb @ [Interrupt, ClientClose]"
      using closing(1,6) tb(1) by simp
    moreover have "list_all (loop_event pool) (ClientOpen # tb @ [Interrupt, ClientClose])"
      using fits_loop_events [OF tb(2)] by simp
    moreover have "\<not> undisturbed env" using closing(4) by (auto simp: undisturbed_def)
    ultimately show ?thesis using closing(5) by auto
  next
    case (left w1 wb)
    from soundD(1) [OF s left(2)] obtain tb where
      tb: "trace wb = trace w1 @ tb" "fits pool r tb"
      by auto
    have t: "trace w' = trace w @ ClientOpen # tb @ [ClientClose]"
      using left(1,4) tb(1) by simp
    have le: "list_all (loop_event pool) (ClientOpen # tb @ [ClientClose])"
      using fits_loop_events [OF tb(2)] by simp
    show ?thesis
    proof (cases r)
      case (Inr v)
      have "\<not> interrupted (ClientOpen # tb @ [ClientClose])"
        using fits_quiet [OF tb(2) left(3)] by simp
      moreover have "\<forall>ev\<in>set (ClientOpen # tb @ [ClientClose]). rejected ev = None"
        using fits_accepted [OF tb(2) [unfolded Inr]] by auto
      ultimately show ?thesis using t le Inr by auto
    next
      case (Inl e)
      with left(3) have ne: "e \<noteq> KeyboardInterrupt" by simp
      from fits_failure(2) [OF tb(2) [unfolded Inl]] have "\<forall>n. e \<noteq> SystemExit n" by blast
      with t le Inl ne tb(2) show ?thesis by auto
    qed
  qed
qed

subsection \<open>The loop\<close>

declare retry_loop.simps [simp del]

lemma is_Exception_classes:
  "is_HTTPStatusError e \<Longrightarrow> is_Exception e" "is_RequestError e \<Longrightarrow> is_Exception e"
  by (cases e; simp)+

lemma retry_loop_step:
  assumes "retry_count < max_retries"
  shows "retry_loop env base_keys retry_count w =
     (case attempt env base_keys w of
        (Inr lic, w1) \<Rightarrow> (Inr lic, w1)
      | (Inl e, w1) \<Rightarrow>
          if is_Exception e then
            (case after_failure env (failure_line (retry_count + 1) e) (retry_count + 1)
                    (retry_delay e) w1 of
               (Inl e2, w2) \<Rightarrow> (Inl e2, w2)
             | (Inr u, w2) \<Rightarrow> retry_loop env base_keys (retry_count + 1) w2)
          else (Inl e, w1))"
  using assms
  by (simp add: retry_loop.simps [of env base_keys retry_count w] failure_line_def
      retry_delay_def is_Exception_classes split: prod.splits sum.splits)

lemma retry_loop_exhausted:
  assumes "\<not> retry_count < max_retries" "retry_loop env base_keys retry_count w = (r, w')"
  shows "(r = Inl (SystemExit 1) \<and> trace w' = trace w @ [Stderr exhausted_line]) \<or>
     (r = Inl KeyboardInterrupt \<and> \<not> undisturbed env \<and>
        (trace w' = trace w @ [Interrupt] \<or>
         trace w' = trace w @ [Stderr exhausted_line, Interrupt]))"
proof -
  from assms have run:
    "step env (emit (Stderr exhausted_line)) (\<lambda>_. step env (raise (SystemExit 1)) ret) w = (r, w')"
    by (simp add: retry_loop.simps [of env base_keys retry_count w])
  have u: "signal env n \<Longrightarrow> \<not> undisturbed env" for n
    by (auto simp: undisturbed_def)
  from run show ?thesis
    by (auto simp: step_unfold dest: u split: if_splits)
qed

lemma after_failure_cases:
  assumes "after_failure env line k secs w = (r, w')"
  shows "(r = Inr () \<and> \<not> k < max_retries \<and> trace w' = trace w @ [Stderr line]) \<or>
         (r = Inr () \<and> k < max_retries \<and> trace w' = trace w @ [Stderr line, Sleep secs False]) \<or>
         (r = Inl KeyboardInterrupt \<and> \<not> undisturbed env \<and>
            (\<exists>t0 ev. trace w' = trace w @ t0 @ [ev] \<and> (ev = Interrupt \<or> ev = Sleep secs True) \<and>
               (t0 = [] \<or> t0 = [Stderr line])))"
proof -
  have u: "signal env n \<Longrightarrow> \<not> undisturbed env" "sleep_interrupted env n \<Longrightarrow> \<not> undisturbed env"
    for n
    by (auto simp: undisturbed_def)
  show ?thesis
  proof (cases "signal env (steps w)")
    case True
    with assms have "r = Inl KeyboardInterrupt" "trace w' = trace w @ [] @ [Interrupt]"
      by (auto simp: after_failure_def step_unfold)
    with u(1) [OF True] show ?thesis by blast
  next
    case s1: False
    show ?thesis
    proof (cases "k < max_retries")
      case False
      with assms s1 show ?thesis
        by (auto simp: after_failure_def step_unfold ret_def)
    next
      case k: True
      show ?thesis
      proof (cases "signal env (steps w + 1)")
        case True
        with assms s1 k have "r = Inl KeyboardInterrupt"
          "trace w' = trace w @ [Stderr line] @ [Interrupt]"
          by (auto simp: after_failure_def step_unfold)
        with u(1) [OF True] show ?thesis by blast
      next
        case s2: False
        show ?thesis
        proof (cases "sleep_interrupted env (naps w)")
          case True
          with assms s1 s2 k have "r = Inl KeyboardInterrupt"
            "trace w' = trace w @ [Stderr line] @ [Sleep secs True]"
            by (auto simp: after_failure_def step_unfold bind_time_sleep)
          with u(2) [OF True] show ?thesis by blast
        next
          case False
          with assms s1 s2 k show ?thesis
            by (auto simp: after_failure_def step_unfold bind_time_sleep ret_def)
        qed
      qed
    qed
  qed
qed

lemma clean_Nil [simp]: "clean pool []"
  by (simp add: clean_def)

lemma clean_append: "clean pool s \<Longrightarrow> clean pool t \<Longrightarrow> clean pool (s @ t)"
  by (auto simp: clean_def)

lemma cut_short_append:
  assumes "\<not> interrupted s" "cut_short t"
  shows "cut_short (s @ t)"
proof -
  from assms(2) obtain pre ev where
    t: "t = pre @ [ev] \<or> t = pre @ [ev, ClientClose]" and ev: "is_interrupt ev"
    and pre: "\<not> interrupted pre"
    unfolding cut_short_def by blast
  from t have "s @ t = (s @ pre) @ [ev] \<or> s @ t = (s @ pre) @ [ev, ClientClose]"
    by auto
  moreover have "\<not> interrupted (s @ pre)"
    using assms(1) pre by simp
  ultimately show ?thesis
    unfolding cut_short_def using ev by blast
qed

lemma loop_post_extend:
  assumes "clean pool s" "trace w2 = trace w @ s" "loop_post env pool w2 r w'"
  shows "loop_post env pool w r w'"
proof (cases r)
  case (Inr lic)
  with assms(3) obtain w1 t0 where
    "attempt env pool w1 = (Inr lic, w')" "trace w1 = trace w2 @ t0" "clean pool t0"
    unfolding loop_post_def by auto
  then have "attempt env pool w1 = (Inr lic, w') \<and> trace w1 = trace w @ (s @ t0) \<and>
      clean pool (s @ t0)"
    using assms(1,2) clean_append by simp
  then show ?thesis unfolding loop_post_def Inr by auto
next
  case (Inl e)
  with assms(3) obtain t where t: "trace w' = trace w2 @ t"
    "list_all (loop_event pool) t"
    "e = KeyboardInterrupt \<and> cut_short t \<and> \<not> undisturbed env \<or>
     e = SystemExit 1 \<and> \<not> interrupted t \<and> stdout t = []"
    unfolding loop_post_def by auto
  have "trace w' = trace w @ (s @ t)" using t(1) assms(2) by simp
  moreover have "list_all (loop_event pool) (s @ t)"
    using t(2) assms(1) by (simp add: clean_def)
  moreover have "e = KeyboardInterrupt \<and> cut_short (s @ t) \<and> \<not> undisturbed env \<or>
     e = SystemExit 1 \<and> \<not> interrupted (s @ t) \<and> stdout (s @ t) = []"
    using t(3) assms(1) cut_short_append [of s t] by (auto simp: clean_def)
  ultimately show ?thesis unfolding loop_post_def Inl by auto
qed

lemma failed_iteration_clean:
  assumes "fits pool (Inl e) ta" "e \<noteq> KeyboardInterrupt"
  shows "clean pool (ClientOpen # ta @ [ClientClose])"
    "clean pool (ClientOpen # ta @ [ClientClose, Stderr (failure_line k e)])"
    "clean pool (ClientOpen # ta @ [ClientClose, Stderr (failure_line k e), Sleep d False])"
  using fits_failure(1,3) [OF assms(1)] assms(2) attempt_events_silent [of pool ta]
  by (auto simp: clean_def)

lemma retry_loop_post:
  assumes "retry_loop env pool rc w = (r, w')"
  shows "loop_post env pool w r w'"
  using assms
proof (induction "max_retries - rc" arbitrary: rc w)
  case 0
  then have "\<not> rc < max_retries" by simp
  from retry_loop_exhausted [OF this 0(2)] show ?case
  proof (elim disjE conjE)
    assume "r = Inl (SystemExit 1)" "trace w' = trace w @ [Stderr exhausted_line]"
    then show ?thesis unfolding loop_post_def by simp
  next
    assume r: "r = Inl KeyboardInterrupt" "\<not> undisturbed env"
      and "trace w' = trace w @ [Interrupt]"
    moreover have "cut_short [Interrupt]" by (rule cut_shortI [of Interrupt "[]"]) simp_all
    ultimately show ?thesis unfolding loop_post_def by auto
  next
    assume r: "r = Inl KeyboardInterrupt" "\<not> undisturbed env"
      and "trace w' = trace w @ [Stderr exhausted_line, Interrupt]"
    moreover have "cut_short [Stderr exhausted_line, Interrupt]"
      by (rule cut_shortI [of Interrupt "[Stderr exhausted_line]"]) simp_all
    ultimately show ?thesis unfolding loop_post_def by auto
  qed
next
  case (Suc k)
  then have lt: "rc < max_retries" by simp
  obtain ra w1 where a: "attempt env pool w = (ra, w1)"
    by (cases "attempt env pool w")
  from attempt_shape [OF a] obtain t where
    t: "trace w1 = trace w @ t" "list_all (loop_event pool) t"
    "undisturbed env \<longrightarrow> ra \<noteq> Inl KeyboardInterrupt"
    "case ra of
        Inr v \<Rightarrow> \<not> interrupted t \<and> (\<forall>ev\<in>set t. rejected ev = None)
      | Inl e \<Rightarrow> (\<forall>n. e \<noteq> SystemExit n) \<and>
          (if e = KeyboardInterrupt then cut_short t
           else \<exists>ta. t = ClientOpen # ta @ [ClientClose] \<and> fits pool (Inl e) ta)"
    by blast
  show ?case
  proof (cases ra)
    case (Inr lic)
    with a Suc.prems retry_loop_step [OF lt, of env pool w]
    have "r = Inr lic" "w' = w1" by auto
    with a Inr have "attempt env pool w = (Inr lic, w') \<and> trace w = trace w @ [] \<and> clean pool []"
      by simp
    then show ?thesis
      unfolding loop_post_def \<open>r = Inr lic\<close> by auto
  next
    case (Inl e)
    show ?thesis
    proof (cases "is_Exception e")
      case False
      with t(4) Inl have e: "e = KeyboardInterrupt"
        by (auto simp: not_Exception_cases)
      from a Inl False Suc.prems retry_loop_step [OF lt, of env pool w]
      have r: "r = Inl e" "w' = w1" by auto
      from t(3,4) Inl e have "cut_short t" "\<not> undisturbed env" by auto
      then show ?thesis
        unfolding loop_post_def r using e t(1,2) r(2) by auto
    next
      case True
      then have ne: "e \<noteq> KeyboardInterrupt" by auto
      with t(4) Inl obtain ta where ta: "t = ClientOpen # ta @ [ClientClose]"
        "fits pool (Inl e) ta"
        by auto
      obtain rf w2 where af: "after_failure env (failure_line (rc + 1) e) (rc + 1)
          (retry_delay e) w1 = (rf, w2)"
        by (cases "after_failure env (failure_line (rc + 1) e) (rc + 1) (retry_delay e) w1")
      note cl = failed_iteration_clean [OF ta(2) ne]
      from after_failure_cases [OF af] consider
        (last) "rf = Inr ()" "trace w2 = trace w1 @ [Stderr (failure_line (rc + 1) e)]"
      | (nap) "rf = Inr ()"
          "trace w2 = trace w1 @ [Stderr (failure_line (rc + 1) e), Sleep (retry_delay e) False]"
      | (stop) t0 ev where "rf = Inl KeyboardInterrupt" "\<not> undisturbed env"
          "trace w2 = trace w1 @ t0 @ [ev]" "ev = Interrupt \<or> ev = Sleep (retry_delay e) True"
          "t0 = [] \<or> t0 = [Stderr (failure_line (rc + 1) e)]"
        by blast
      then show ?thesis
      proof cases
        case last
        from a Inl True af last(1) Suc.prems retry_loop_step [OF lt, of env pool w]
        have "retry_loop env pool (rc + 1) w2 = (r, w')" by simp
        moreover have "k = max_retries - (rc + 1)" using Suc.hyps(2) by simp
        ultimately have "loop_post env pool w2 r w'" using Suc.hyps(1) by blast
        moreover have "trace w2 = trace w @
            (ClientOpen # ta @ [ClientClose, Stderr (failure_line (rc + 1) e)])"
          using last(2) t(1) ta(1) by simp
        ultimately show ?thesis using loop_post_extend [OF cl(2)] by blast
      next
        case nap
        from a Inl True af nap(1) Suc.prems retry_loop_step [OF lt, of env pool w]
        have "retry_loop env pool (rc + 1) w2 = (r, w')" by simp
        moreover have "k = max_retries - (rc + 1)" using Suc.hyps(2) by simp
        ultimately have "loop_post env pool w2 r w'" using Suc.hyps(1) by blast
        moreover have "trace w2 = trace w @
            (ClientOpen # ta @ [ClientClose, Stderr (failure_line (rc + 1) e),
               Sleep (retry_delay e) False])"
          using nap(2) t(1) ta(1) by simp
        ultimately show ?thesis using loop_post_extend [OF cl(3)] by blast
      next
        case stop
        from a Inl True af stop(1) Suc.prems retry_loop_step [OF lt, of env pool w]
        have r: "r = Inl KeyboardInterrupt" "w' = w2" by auto
        let ?pre = "(ClientOpen # ta @ [ClientClose]) @ t0"
        have pre: "clean pool ?pre"
          using stop(5) cl(1) cl(2) [of "rc + 1"] by auto
        have "trace w' = trace w @ (?pre @ [ev])" using stop(3) t(1) ta(1) r(2) by simp
        moreover have "cut_short (?pre @ [ev])"
          using pre stop(4) by (intro cut_shortI [of ev ?pre]) (auto simp: clean_def)
        moreover have "list_all (loop_event pool) (?pre @ [ev])"
          using pre stop(4) by (auto simp: clean_def)
        ultimately have "\<exists>t. trace w' = trace w @ t \<and> list_all (loop_event pool) t \<and>
            cut_short t"
          by blast
        then show ?thesis
          unfolding loop_post_def r using stop(2) by auto
      qed
    qed
  qed
qed

subsection \<open>Parsing the pool\<close>

declare spec_segments.simps [simp del]

lemma py_split_unfold:
  "py_split sep xs =
     takeWhile (\<lambda>c. c \<noteq> sep) xs #
       (case dropWhile (\<lambda>c. c \<noteq> sep) xs of [] \<Rightarrow> [] | _ # rest \<Rightarrow> py_split sep rest)"
  by (induction xs) (auto split: list.splits)

lemma spec_segments_py_split: "spec_segments body = py_split comma body"
proof (induction body rule: spec_segments.induct)
  case (1 body)
  show ?case
  proof (cases "dropWhile (\<lambda>c. c \<noteq> comma) body")
    case Nil
    show ?thesis
      by (subst spec_segments.simps, subst py_split_unfold) (simp only: Nil list.case)
  next
    case (Cons x rest)
    with 1 have "spec_segments rest = py_split comma rest" by blast
    then show ?thesis
      by (subst spec_segments.simps, subst py_split_unfold) (simp only: Cons list.case)
  qed
qed

lemma trim_order:
  "dropWhile P (rev (dropWhile P (rev s))) = rev (dropWhile P (rev (dropWhile P s)))"
proof (cases "dropWhile P s")
  case Nil
  then have "\<forall>x\<in>set s. P x" by simp
  then have r: "dropWhile P (rev s) = []" by simp
  have "dropWhile P (rev (dropWhile P (rev s))) = []"
    by (simp only: r rev.simps dropWhile.simps)
  moreover have "rev (dropWhile P (rev (dropWhile P s))) = []"
    by (simp only: Nil rev.simps dropWhile.simps)
  ultimately show ?thesis by (simp only:)
next
  case (Cons x m)
  have nx: "\<not> P x"
    using hd_dropWhile [of P s] Cons by simp
  define a where "a = takeWhile P s"
  have "s = takeWhile P s @ dropWhile P s" by simp
  then have s: "s = a @ x # m" unfolding a_def Cons .
  have a: "\<forall>y\<in>set a. P y" unfolding a_def using set_takeWhileD by fastforce
  have 1: "dropWhile P (rev (x # m)) = dropWhile P (rev m) @ [x]"
    using nx by (simp add: dropWhile_append)
  have "dropWhile P (rev s) = dropWhile P (rev (x # m)) @ rev a"
    unfolding s using nx by (simp add: dropWhile_append)
  then have "rev (dropWhile P (rev s)) = a @ x # rev (dropWhile P (rev m))"
    using 1 by simp
  then have "dropWhile P (rev (dropWhile P (rev s))) = x # rev (dropWhile P (rev m))"
    using a nx by (simp add: dropWhile_append)
  moreover have "rev (dropWhile P (rev (dropWhile P s))) = x # rev (dropWhile P (rev m))"
    using Cons 1 by simp
  ultimately show ?thesis by simp
qed

lemma py_strip_spec_trim: "py_strip s = spec_trim s"
  by (simp add: py_strip_def spec_trim_def trim_order)


lemma get_base_keys_success:
  assumes "\<not> (400 \<le> st \<and> st < 600)"
  shows "get_base_keys (SeedResponse st (Some body)) =
    Inr (map py_strip (filter (\<lambda>k. py_strip k \<noteq> []) (py_split comma body)))"
proof -
  have "requests_raise_for_status \<lparr>seed_status = st, seed_content = Some body\<rparr> = Inr ()"
    using assms by (simp add: requests_raise_for_status_def)
  then show ?thesis
    by (simp add: get_base_keys_def get_base_keys_try_def sbind_def requests_get_def
        content_decode_def)
qed

lemma get_base_keys_parse:
  assumes "\<not> (400 \<le> st \<and> st < 600)"
  shows "get_base_keys (SeedResponse st (Some body)) = Inr (spec_parse_pool body)"
proof -
  have "map py_strip (filter (\<lambda>k. py_strip k \<noteq> []) (py_split comma body)) =
      filter (\<lambda>s. s \<noteq> []) (map py_strip (py_split comma body))"
    by (simp add: filter_map o_def)
  also have "\<dots> = spec_parse_pool body"
    unfolding spec_parse_pool_def spec_segments_py_split
    by (simp add: py_strip_spec_trim [abs_def])
  finally show ?thesis
    using get_base_keys_success [OF assms] by simp
qed

subsection \<open>Evaluation\<close>

lemmas eval_defs = run_def main_def generate_single_key_def fetch_base_keys_def
  bind_def ret_def raise_def lift_def emit_def step_def checkpoint_def print_stdout_def
  client_request_def random_choice_def
  time_sleep_def with_client_def attempt_def after_failure_def raise_for_status_def
  r_json_def sbind_def is_success_def max_retries_def world0_def Let_def
  retry_loop.simps get_base_keys_success py_def comma_def py_strip_def isspace_def
  script_def stdout_def stderr_def reg_a_def reg_b_def info_ok_def

lemma get_base_keys_fallback:
  "get_base_keys SeedFailed = Inr fallback_keys"
  "400 \<le> st \<and> st < 600 \<Longrightarrow> get_base_keys (SeedResponse st body) = Inr fallback_keys"
  "get_base_keys (SeedResponse st None) = Inr fallback_keys"
  "length fallback_keys = 3"
  by (simp_all add: get_base_keys_def get_base_keys_try_def sbind_def requests_get_def
      requests_raise_for_status_def content_decode_def fallback_keys_def)

lemma get_base_keys_interrupted: "get_base_keys SeedInterrupted = Inl KeyboardInterrupt"
  by (simp add: get_base_keys_def get_base_keys_try_def sbind_def requests_get_def)

subsection \<open>The ways a run ends\<close>

lemma get_base_keys_cases:
  "(get_base_keys s = Inl KeyboardInterrupt \<and> s = SeedInterrupted) \<or>
   (\<exists>pool. get_base_keys s = Inr pool \<and> s \<noteq> SeedInterrupted)"
  by (cases s)
     (auto simp: get_base_keys_def get_base_keys_try_def sbind_def requests_get_def
        requests_raise_for_status_def content_decode_def split: option.splits)

text \<open>The three ways a run ends.\<close>

lemma run_cases:
  obtains
    (cancelled_at_fetch) "seed_source env = SeedInterrupted"
      "run env = (130, [SeedGet SeedInterrupted, Stderr cancelled_line])"
  | (returned) pool w1 w' lic t0 where
      "get_base_keys (seed_source env) = Inr pool" "seed_source env \<noteq> SeedInterrupted"
      "attempt env pool w1 = (Inr lic, w')" "trace w1 = SeedGet (seed_source env) # t0"
      "clean pool t0" "run env = (0, trace w')"
  | (cancelled) pool t where
      "get_base_keys (seed_source env) = Inr pool" "seed_source env \<noteq> SeedInterrupted"
      "cut_short t" "list_all (loop_event pool) t" "\<not> undisturbed env"
      "run env = (130, SeedGet (seed_source env) # t @ [Stderr cancelled_line])"
  | (exhausted) pool w0 w' where
      "get_base_keys (seed_source env) = Inr pool" "seed_source env \<noteq> SeedInterrupted"
      "trace w0 = [SeedGet (seed_source env)]"
      "retry_loop env pool 0 w0 = (Inl (SystemExit 1), w')"
      "run env = (1, trace w')"
proof -
  define w0 where "w0 = world0\<lparr>trace := trace world0 @ [SeedGet (seed_source env)]\<rparr>"
  have tw0: "trace w0 = [SeedGet (seed_source env)]"
    by (simp add: w0_def world0_def)
  from get_base_keys_cases [of "seed_source env"] show ?thesis
  proof
    assume "get_base_keys (seed_source env) = Inl KeyboardInterrupt \<and>
      seed_source env = SeedInterrupted"
    then have "seed_source env = SeedInterrupted"
      "run env = (130, [SeedGet SeedInterrupted, Stderr cancelled_line])"
      by (simp_all add: run_def main_def generate_single_key_def fetch_base_keys_def bind_def
          raise_def emit_def world0_def get_base_keys_interrupted)
    then show ?thesis by (rule cancelled_at_fetch)
  next
    assume "\<exists>pool. get_base_keys (seed_source env) = Inr pool \<and> seed_source env \<noteq> SeedInterrupted"
    then obtain pool where pool: "get_base_keys (seed_source env) = Inr pool"
      and ns: "seed_source env \<noteq> SeedInterrupted" by blast
    obtain r w' where loop: "retry_loop env pool 0 w0 = (r, w')"
      by (cases "retry_loop env pool 0 w0")
    have gen: "generate_single_key env world0 = (r, w')"
      using pool loop
      by (simp add: generate_single_key_def fetch_base_keys_def bind_def w0_def)
    note post = retry_loop_post [OF loop]
    show ?thesis
    proof (cases r)
      case (Inr lic)
      with post obtain w1 t0 where
        a: "attempt env pool w1 = (Inr lic, w')" "trace w1 = trace w0 @ t0" "clean pool t0"
        unfolding loop_post_def by auto
      have "run env = (0, trace w')"
        using gen Inr by (simp add: run_def main_def)
      with a tw0 pool ns show ?thesis by (intro returned [of pool w1 lic w' t0]) simp_all
    next
      case (Inl e)
      with post obtain t where t: "trace w' = trace w0 @ t"
        "list_all (loop_event pool) t"
        "e = KeyboardInterrupt \<and> cut_short t \<and> \<not> undisturbed env \<or>
         e = SystemExit 1 \<and> \<not> interrupted t \<and> stdout t = []"
        unfolding loop_post_def by auto
      from t(3) show ?thesis
      proof
        assume k: "e = KeyboardInterrupt \<and> cut_short t \<and> \<not> undisturbed env"
        have "run env = (130, SeedGet (seed_source env) # t @ [Stderr cancelled_line])"
          using gen Inl k t(1) tw0
          by (simp add: run_def main_def bind_def emit_def raise_def)
        with k t pool ns show ?thesis by (intro cancelled [of pool t]) simp_all
      next
        assume x: "e = SystemExit 1 \<and> \<not> interrupted t \<and> stdout t = []"
        have "run env = (1, trace w')"
          using gen Inl x by (simp add: run_def main_def)
        with x loop Inl pool ns tw0 show ?thesis by (intro exhausted [of pool w0 w']) simp_all
      qed
    qed
  qed
qed

lemma loop_event_facts:
  assumes "list_all (loop_event pool) t" "ev \<in> set t"
  shows "(\<forall>s. ev \<noteq> SeedGet s) \<and> (\<forall>seq. ev = Choice seq \<longrightarrow> seq = pool)"
proof -
  from assms have "loop_event pool ev" by (simp add: list_all_iff)
  then show ?thesis by (cases ev) auto
qed

lemma seed_get_not_interrupt: "s \<noteq> SeedInterrupted \<Longrightarrow> \<not> is_interrupt (SeedGet s)"
  by (cases s) auto

lemma stderr_set: "m \<in> set (stderr t) \<longleftrightarrow> Stderr m \<in> set t"
proof (induction t)
  case Nil
  then show ?case by simp
next
  case (Cons ev t)
  then show ?case by (cases ev) auto
qed

lemma cancelled_not_exhausted: "cancelled_line \<noteq> exhausted_line"
  by (simp add: cancelled_line_def exhausted_line_def)

lemma one_fetch:
  assumes "list_all (loop_event pool) rest" "tr = SeedGet s # rest" "get_base_keys s = Inr pool"
  shows "\<exists>rest. tr = SeedGet s # rest \<and>
     (\<forall>ev\<in>set rest. (\<forall>s. ev \<noteq> SeedGet s) \<and>
        (\<forall>seq. ev = Choice seq \<longrightarrow> get_base_keys s = Inr seq))"
proof (intro exI [of _ rest] conjI ballI)
  show "tr = SeedGet s # rest" by fact
next
  fix ev
  assume "ev \<in> set rest"
  from loop_event_facts [OF assms(1) this]
  show "\<forall>s. ev \<noteq> SeedGet s" by simp
next
  fix ev
  assume "ev \<in> set rest"
  from loop_event_facts [OF assms(1) this]
  show "\<forall>seq. ev = Choice seq \<longrightarrow> get_base_keys s = Inr seq"
    using assms(3) by simp
qed


subsection \<open>Three failed attempts\<close>

lemma quiet_filtered: "list_all quiet t \<Longrightarrow> filter (\<lambda>ev. \<not> quiet ev) t = []"
  by (induction t) auto

lemma failed_round:
  assumes "rc < max_retries" "retry_loop env pool rc w = (Inl (SystemExit n), w')"
  shows "\<exists>e ta w2. is_Exception e \<and> list_all quiet ta \<and>
    trace w2 = trace w @ ClientOpen # ta @ [ClientClose, Stderr (failure_line (Suc rc) e)] @
      (if Suc rc < max_retries then [Sleep (retry_delay e) False] else []) \<and>
    retry_loop env pool (Suc rc) w2 = (Inl (SystemExit n), w')"
proof -
  obtain ra w1 where a: "attempt env pool w = (ra, w1)"
    by (cases "attempt env pool w")
  from attempt_shape [OF a] obtain t where
    t: "trace w1 = trace w @ t"
    "case ra of
        Inr v \<Rightarrow> \<not> interrupted t \<and> (\<forall>ev\<in>set t. rejected ev = None)
      | Inl e \<Rightarrow> (\<forall>n. e \<noteq> SystemExit n) \<and>
          (if e = KeyboardInterrupt then cut_short t
           else \<exists>ta. t = ClientOpen # ta @ [ClientClose] \<and> fits pool (Inl e) ta)"
    by blast
  note step = retry_loop_step [OF assms(1), of env pool w]
  show ?thesis
  proof (cases ra)
    case (Inr lic)
    with a assms(2) step show ?thesis by simp
  next
    case (Inl e)
    show ?thesis
    proof (cases "is_Exception e")
      case False
      with a Inl assms(2) step have "e = SystemExit n" by simp
      with t(2) Inl have False by simp
      then show ?thesis ..
    next
      case True
      then have ne: "e \<noteq> KeyboardInterrupt" by auto
      with t Inl obtain ta where
        ta: "trace w1 = trace w @ ClientOpen # ta @ [ClientClose]" "fits pool (Inl e) ta"
        by auto
      have q: "list_all quiet ta"
        using fits_failure(3) [OF ta(2) ne] attempt_events_silent [of pool ta] by simp
      obtain rf w2 where af: "after_failure env (failure_line (rc + 1) e) (rc + 1)
          (retry_delay e) w1 = (rf, w2)"
        by (cases "after_failure env (failure_line (rc + 1) e) (rc + 1) (retry_delay e) w1")
      from after_failure_cases [OF af] consider
        (last) "rf = Inr ()" "\<not> rc + 1 < max_retries"
          "trace w2 = trace w1 @ [Stderr (failure_line (rc + 1) e)]"
      | (nap) "rf = Inr ()" "rc + 1 < max_retries"
          "trace w2 = trace w1 @ [Stderr (failure_line (rc + 1) e), Sleep (retry_delay e) False]"
      | (stop) "rf = Inl KeyboardInterrupt"
        by blast
      then show ?thesis
      proof cases
        case last
        from a Inl True af last(1) assms(2) step
        have "retry_loop env pool (Suc rc) w2 = (Inl (SystemExit n), w')" by simp
        moreover have "trace w2 = trace w @ ClientOpen # ta @
            [ClientClose, Stderr (failure_line (Suc rc) e)] @
            (if Suc rc < max_retries then [Sleep (retry_delay e) False] else [])"
          using last(2,3) ta(1) by simp
        ultimately show ?thesis using True q by blast
      next
        case nap
        from a Inl True af nap(1) assms(2) step
        have "retry_loop env pool (Suc rc) w2 = (Inl (SystemExit n), w')" by simp
        moreover have "trace w2 = trace w @ ClientOpen # ta @
            [ClientClose, Stderr (failure_line (Suc rc) e)] @
            (if Suc rc < max_retries then [Sleep (retry_delay e) False] else [])"
          using nap(2,3) ta(1) by simp
        ultimately show ?thesis using True q by blast
      next
        case stop
        with a Inl True af assms(2) step show ?thesis by simp
      qed
    qed
  qed
qed

lemma exhausted_shape:
  assumes "retry_loop env pool 0 w = (Inl (SystemExit n), w')"
  shows "n = 1 \<and> (\<exists>e1 e2 e3. is_Exception e1 \<and> is_Exception e2 \<and> is_Exception e3 \<and>
    filter (\<lambda>ev. \<not> quiet ev) (trace w') = filter (\<lambda>ev. \<not> quiet ev) (trace w) @
      [ClientOpen, ClientClose, Stderr (failure_line 1 e1), Sleep (retry_delay e1) False,
       ClientOpen, ClientClose, Stderr (failure_line 2 e2), Sleep (retry_delay e2) False,
       ClientOpen, ClientClose, Stderr (failure_line 3 e3), Stderr exhausted_line])"
proof -
  have lt: "(0::nat) < max_retries" "Suc 0 < max_retries" "Suc (Suc 0) < max_retries"
    "\<not> Suc (Suc (Suc 0)) < max_retries"
    by (simp_all add: max_retries_def)
  from failed_round [OF lt(1) assms] obtain e1 ta1 w1 where
    r1: "is_Exception e1" "list_all quiet ta1"
    "trace w1 = trace w @ ClientOpen # ta1 @
       [ClientClose, Stderr (failure_line (Suc 0) e1), Sleep (retry_delay e1) False]"
    "retry_loop env pool (Suc 0) w1 = (Inl (SystemExit n), w')"
    using lt(2) by auto
  from failed_round [OF lt(2) r1(4)] obtain e2 ta2 w2 where
    r2: "is_Exception e2" "list_all quiet ta2"
    "trace w2 = trace w1 @ ClientOpen # ta2 @
       [ClientClose, Stderr (failure_line (Suc (Suc 0)) e2), Sleep (retry_delay e2) False]"
    "retry_loop env pool (Suc (Suc 0)) w2 = (Inl (SystemExit n), w')"
    using lt(3) by auto
  from failed_round [OF lt(3) r2(4)] obtain e3 ta3 w3 where
    r3: "is_Exception e3" "list_all quiet ta3"
    "trace w3 = trace w2 @ ClientOpen # ta3 @
       [ClientClose, Stderr (failure_line (Suc (Suc (Suc 0))) e3)]"
    "retry_loop env pool (Suc (Suc (Suc 0))) w3 = (Inl (SystemExit n), w')"
    using lt(4) by auto
  from retry_loop_exhausted [OF lt(4) r3(4)]
  have n: "n = 1" and w': "trace w' = trace w3 @ [Stderr exhausted_line]"
    by auto
  have "filter (\<lambda>ev. \<not> quiet ev) (trace w') = filter (\<lambda>ev. \<not> quiet ev) (trace w) @
      [ClientOpen, ClientClose, Stderr (failure_line 1 e1), Sleep (retry_delay e1) False,
       ClientOpen, ClientClose, Stderr (failure_line 2 e2), Sleep (retry_delay e2) False,
       ClientOpen, ClientClose, Stderr (failure_line 3 e3), Stderr exhausted_line]"
    unfolding w' r3(3) r2(3) r1(3)
    by (simp add: quiet_filtered [OF r1(2)] quiet_filtered [OF r2(2)] quiet_filtered [OF r3(2)]
        numeral_2_eq_2 numeral_3_eq_3)
  with n r1(1) r2(1) r3(1) show ?thesis by blast
qed


subsection \<open>A run that returns\<close>

lemma info_responses_append [simp]:
  "info_responses (s @ t) = info_responses s @ info_responses t"
  by (simp add: info_responses_def)

lemma registrations_append [simp]:
  "registrations (s @ t) = registrations s @ registrations t"
  by (simp add: registrations_def)

lemma put_bodies_append [simp]:
  "put_bodies (s @ t) = put_bodies s @ put_bodies t"
  by (simp add: put_bodies_def)

text \<open>What a run that returns has done in its last attempt.\<close>

lemma run_returned:
  assumes "fst (run env) = 0"
  shows "\<exists>pre sa a license rb key sg j at rc lic.
    sbind (getitem a (py ''account'')) (\<lambda>acc. getitem acc (py ''license'')) = Inr license \<and>
    is_success sg \<and>
    dict_get j (py ''account_type'') (JStr []) = Inr at \<and>
    dict_get j (py ''referral_count'') (JNum 0) = Inr rc \<and>
    getitem j (py ''license'') = Inr lic \<and>
    stdout (snd (run env)) = [lic] \<and>
    stderr (snd (run env)) = stderr pre @ [AccountTypeLine at, DataCountLine rc] \<and>
    info_responses (snd (run env)) = info_responses pre @ [Responded sg (Some j)] \<and>
    registrations (snd (run env)) = registrations pre @ [Responded sa (Some a), rb] \<and>
    put_bodies (snd (run env)) = put_bodies pre @
      [Some (JObj [(py ''license'', JStr key)]), Some (JObj [(py ''license'', license)])]"
proof (cases env rule: run_cases)
  case cancelled_at_fetch
  with assms show ?thesis by simp
next
  case (cancelled pool t)
  with assms show ?thesis by simp
next
  case (exhausted pool w0 w')
  with assms show ?thesis by simp
next
  case (returned pool w1 w' lic t0)
  have pre: "stdout (trace w1) = []"
    using returned(4,5) by (simp add: clean_def)
  from attempt_success [OF returned(3)] obtain sa a id1 license token1 sb b id2 token2 sg i at rc
    where f: "api env (requests_sent w1) = Responded sa (Some a)"
      "sbind (getitem a (py ''account'')) (\<lambda>a. getitem a (py ''license'')) = Inr license"
      "api env (requests_sent w1 + 6) = Responded sg (Some i)" "is_success sg"
      "dict_get i (py ''account_type'') (JStr []) = Inr at"
      "dict_get i (py ''referral_count'') (JNum 0) = Inr rc"
      "getitem i (py ''license'') = Inr lic"
    and t: "trace w' = trace w1 @
      [ClientOpen,
       Http (Request POST Reg [] None) (api env (requests_sent w1)),
       Http (Request POST Reg [] None) (api env (requests_sent w1 + 1)),
       Http (Request PATCH (RegId id1)
               [(''Content-Type'', Literal ''application/json; charset=UTF-8''),
                (''Authorization'', Bearer token1)]
               (Some (JObj [(py ''referrer'', id2)]))) (api env (requests_sent w1 + 2)),
       Http (Request DELETE (RegId id2) [(''Authorization'', Bearer token2)] None)
            (api env (requests_sent w1 + 3)),
       Choice pool,
       Http (Request PUT (RegIdAccount id1)
               [(''Content-Type'', Literal ''application/json; charset=UTF-8''),
                (''Authorization'', Bearer token1)]
               (Some (JObj [(py ''license'',
                  JStr (pool ! (random_source env (draws w1) mod length pool)))])))
            (api env (requests_sent w1 + 4)),
       Http (Request PUT (RegIdAccount id1)
               [(''Content-Type'', Literal ''application/json; charset=UTF-8''),
                (''Authorization'', Bearer token1)]
               (Some (JObj [(py ''license'', license)])))
            (api env (requests_sent w1 + 5)),
       Http (Request GET (RegIdAccount id1) [(''Authorization'', Bearer token1)] None)
            (api env (requests_sent w1 + 6)),
       Http (Request DELETE (RegId id1) [(''Authorization'', Bearer token1)] None)
            (api env (requests_sent w1 + 7)),
       Stdout lic, Stderr (AccountTypeLine at), Stderr (DataCountLine rc), ClientClose]"
    by blast
  have r: "snd (run env) = trace w'" using returned(6) by simp
  have 1: "stdout (snd (run env)) = [lic]"
    unfolding r t using pre by simp
  have 2: "stderr (snd (run env)) = stderr (trace w1) @ [AccountTypeLine at, DataCountLine rc]"
    unfolding r t by simp
  have 3: "info_responses (snd (run env)) = info_responses (trace w1) @ [Responded sg (Some i)]"
    unfolding r t by (simp add: f(3)) (simp add: info_responses_def)
  have 4: "registrations (snd (run env)) =
      registrations (trace w1) @ [Responded sa (Some a), api env (requests_sent w1 + 1)]"
    unfolding r t by (simp add: f(1)) (simp add: registrations_def)
  have 5: "put_bodies (snd (run env)) = put_bodies (trace w1) @
      [Some (JObj [(py ''license'', JStr (pool ! (random_source env (draws w1) mod length pool)))]),
       Some (JObj [(py ''license'', license)])]"
    unfolding r t by simp (simp add: put_bodies_def)
  from f(2,4-7) 1 2 3 4 5 show ?thesis by blast
qed


lemmas eval_more = info_responses_def registrations_def put_bodies_def info_other_def

subsection \<open>The read-back\<close>








subsection \<open>Lines, and environments without interruption\<close>



lemma script_cases: "script xs d n \<in> set xs \<union> {d}"
  by (simp add: script_def)

lemma undisturbed_script:
  assumes "s \<noteq> SeedInterrupted" "Interrupted \<notin> set xs" "d \<noteq> Interrupted"
  shows "undisturbed \<lparr>seed_source = s, api = script xs d, random_source = f,
    sleep_interrupted = (\<lambda>_. False), signal = (\<lambda>_. False), unprintable = u\<rparr>"
proof -
  have "script xs d n \<noteq> Interrupted" for n
    using script_cases [of xs d n] assms(2,3) by auto
  then show ?thesis using assms(1) by (simp add: undisturbed_def)
qed



section \<open>The claims\<close>




text \<open>
  C2, as stated, fails: the code never compares the license it reads back with the one
  captured at registration. Here the provider returns \<open>LIC-NEW\<close> in the final account
  info, the registration had returned \<open>LIC-ORIG\<close>, and the run succeeds printing
  \<open>LIC-NEW\<close>.
\<close>

theorem final_license_may_differ:
  "fst (run env_other_license) = 0 \<and>
   stdout (snd (run env_other_license)) = [JStr (py ''LIC-NEW'')] \<and>
   registrations (snd (run env_other_license)) =
     [Responded 200 (Some reg_a), Responded 200 (Some reg_b)] \<and>
   sbind (getitem reg_a (py ''account'')) (\<lambda>acc. getitem acc (py ''license'')) =
     Inr (JStr (py ''LIC-ORIG''))"
  by (simp add: eval_defs eval_more env_other_license_def)

text \<open>
  C2, amended. In every run that returns, the license captured from account A's registration
  response is the one sent back in the restoring PUT (the last PUT of the run, after the PUT
  of the seed key), and the printed value is the license of the final account-info
  response: the two are equal exactly when that response returns the license that was
  restored.
\<close>

theorem registration_license_is_restored_not_compared:
  assumes "fst (run env) = 0"
  shows "\<exists>regs sa a rb license puts key infos sg j lic.
    registrations (snd (run env)) = regs @ [Responded sa (Some a), rb] \<and>
    sbind (getitem a (py ''account'')) (\<lambda>acc. getitem acc (py ''license'')) = Inr license \<and>
    put_bodies (snd (run env)) = puts @
      [Some (JObj [(py ''license'', JStr key)]), Some (JObj [(py ''license'', license)])] \<and>
    info_responses (snd (run env)) = infos @ [Responded sg (Some j)] \<and>
    getitem j (py ''license'') = Inr lic \<and>
    stdout (snd (run env)) = [lic] \<and>
    (lic = license \<longleftrightarrow> getitem j (py ''license'') = Inr license)"
proof -
  from run_returned [OF assms] obtain pre sa a license rb key sg j lic where
    f: "sbind (getitem a (py ''account'')) (\<lambda>acc. getitem acc (py ''license'')) = Inr license"
    "getitem j (py ''license'') = Inr lic"
    "stdout (snd (run env)) = [lic]"
    "info_responses (snd (run env)) = info_responses pre @ [Responded sg (Some j)]"
    "registrations (snd (run env)) = registrations pre @ [Responded sa (Some a), rb]"
    "put_bodies (snd (run env)) = put_bodies pre @
      [Some (JObj [(py ''license'', JStr key)]), Some (JObj [(py ''license'', license)])]"
    by blast
  have "lic = license \<longleftrightarrow> getitem j (py ''license'') = Inr license"
    using f(2) by auto
  with f show ?thesis by blast
qed

theorem registration_license_is_restored_not_compared_witness:
  "fst (run env_ok) = 0 \<and>
   put_bodies (snd (run env_ok)) =
     [Some (JObj [(py ''license'', JStr (py ''SEED-1''))]),
      Some (JObj [(py ''license'', JStr (py ''LIC-ORIG''))])] \<and>
   (\<exists>regs sa a rb license puts key infos sg j lic.
      registrations (snd (run env_ok)) = regs @ [Responded sa (Some a), rb] \<and>
      sbind (getitem a (py ''account'')) (\<lambda>acc. getitem acc (py ''license'')) = Inr license \<and>
      put_bodies (snd (run env_ok)) = puts @
        [Some (JObj [(py ''license'', JStr key)]), Some (JObj [(py ''license'', license)])] \<and>
      info_responses (snd (run env_ok)) = infos @ [Responded sg (Some j)] \<and>
      getitem j (py ''license'') = Inr lic \<and>
      stdout (snd (run env_ok)) = [lic] \<and>
      (lic = license \<longleftrightarrow> getitem j (py ''license'') = Inr license))"
proof -
  have h: "fst (run env_ok) = 0"
    by (simp add: eval_defs env_ok_def)
  have p: "put_bodies (snd (run env_ok)) =
     [Some (JObj [(py ''license'', JStr (py ''SEED-1''))]),
      Some (JObj [(py ''license'', JStr (py ''LIC-ORIG''))])]"
    by (simp add: eval_defs eval_more env_ok_def)
  from registration_license_is_restored_not_compared [OF h] h p show ?thesis by blast
qed

text \<open>
  C3. Let every attempt fail: from whatever state it starts, \<open>attempt\<close> raises an
  \<open>Exception\<close>; and let the operator not interrupt. Then the run makes exactly three
  attempts: without its requests and draws, the trace is the fetch, then three times the
  opening and closing of a client followed by a failure line numbered 1, 2, 3. After the
  first and the second failure line the process sleeps, 5 seconds after an HTTP-status or
  transport error and 10 seconds after any other exception (\<open>retry_delay\<close>); the third
  is followed at once by the line of exhausted retries. The process exits with status 1
  and has written nothing to standard output.
\<close>

theorem three_attempts_then_exit_1:
  assumes "undisturbed env" "get_base_keys (seed_source env) = Inr base_keys"
    "\<forall>w. \<exists>e. fst (attempt env base_keys w) = Inl e \<and> is_Exception e"
  shows "fst (run env) = 1 \<and> stdout (snd (run env)) = [] \<and>
    (\<exists>e1 e2 e3. is_Exception e1 \<and> is_Exception e2 \<and> is_Exception e3 \<and>
       filter (\<lambda>ev. \<not> quiet ev) (snd (run env)) =
         [SeedGet (seed_source env),
          ClientOpen, ClientClose, Stderr (failure_line 1 e1), Sleep (retry_delay e1) False,
          ClientOpen, ClientClose, Stderr (failure_line 2 e2), Sleep (retry_delay e2) False,
          ClientOpen, ClientClose, Stderr (failure_line 3 e3), Stderr exhausted_line])"
proof (cases env rule: run_cases)
  case cancelled_at_fetch
  with assms(1) show ?thesis by (simp add: undisturbed_def)
next
  case (returned pool w1 w' lic t0)
  from returned(1,3) assms(2) have "fst (attempt env base_keys w1) = Inr lic" by simp
  with assms(3) show ?thesis by (metis Inl_Inr_False)
next
  case (cancelled pool t)
  with assms(1) show ?thesis by simp
next
  case (exhausted pool w0 w')
  from retry_loop_post [OF exhausted(4)] obtain t where
    "trace w' = trace w0 @ t" "stdout t = []"
    unfolding loop_post_def by auto
  then have "stdout (snd (run env)) = []"
    using exhausted(3,5) by simp
  with exhausted_shape [OF exhausted(4)] exhausted(3,5) show ?thesis by simp
qed

theorem three_attempts_then_exit_1_witness:
  "undisturbed env_all_fail \<and>
   get_base_keys (seed_source env_all_fail) = Inr fallback_keys \<and>
   (\<forall>w. \<exists>e. fst (attempt env_all_fail fallback_keys w) = Inl e \<and> is_Exception e) \<and>
   fst (run env_all_fail) = 1 \<and> stdout (snd (run env_all_fail)) = [] \<and>
   filter (\<lambda>ev. \<not> quiet ev) (snd (run env_all_fail)) =
     [SeedGet SeedFailed,
      ClientOpen, ClientClose, Stderr (UnexpectedErrorLine 1 3 JSONDecodeError), Sleep 10 False,
      ClientOpen, ClientClose, Stderr (HTTPErrorLine 2 3 (HTTPStatusError 500)), Sleep 5 False,
      ClientOpen, ClientClose, Stderr (RequestErrorLine 3 3 RequestError),
      Stderr exhausted_line] \<and>
   (\<exists>e1 e2 e3. is_Exception e1 \<and> is_Exception e2 \<and> is_Exception e3 \<and>
       filter (\<lambda>ev. \<not> quiet ev) (snd (run env_all_fail)) =
         [SeedGet (seed_source env_all_fail),
          ClientOpen, ClientClose, Stderr (failure_line 1 e1), Sleep (retry_delay e1) False,
          ClientOpen, ClientClose, Stderr (failure_line 2 e2), Sleep (retry_delay e2) False,
          ClientOpen, ClientClose, Stderr (failure_line 3 e3), Stderr exhausted_line])"
proof -
  have h1: "undisturbed env_all_fail"
    unfolding env_all_fail_def by (rule undisturbed_script) simp_all
  have h2: "get_base_keys (seed_source env_all_fail) = Inr fallback_keys"
    by (simp add: env_all_fail_def get_base_keys_fallback)
  have h3: "\<forall>w. \<exists>e. fst (attempt env_all_fail fallback_keys w) = Inl e \<and> is_Exception e"
  proof
    fix w :: world
    consider "requests_sent w = 0" | "requests_sent w = 1" | "2 \<le> requests_sent w"
      by linarith
    then show "\<exists>e. fst (attempt env_all_fail fallback_keys w) = Inl e \<and> is_Exception e"
      by cases (simp_all add: attempt_def with_client_def step_unfold bind_checkpoint
          checkpoint_def bind_client_request raise_for_status_def r_json_def sbind_def
          is_success_def script_def env_all_fail_def)
  qed
  have e: "filter (\<lambda>ev. \<not> quiet ev) (snd (run env_all_fail)) =
     [SeedGet SeedFailed,
      ClientOpen, ClientClose, Stderr (UnexpectedErrorLine 1 3 JSONDecodeError), Sleep 10 False,
      ClientOpen, ClientClose, Stderr (HTTPErrorLine 2 3 (HTTPStatusError 500)), Sleep 5 False,
      ClientOpen, ClientClose, Stderr (RequestErrorLine 3 3 RequestError),
      Stderr exhausted_line]"
    by (simp add: eval_defs env_all_fail_def get_base_keys_fallback)
  from three_attempts_then_exit_1 [OF h1 h2 h3] h1 h2 h3 e show ?thesis by blast
qed

text \<open>
  C4. The claim asks for the three fallback keys whenever the source gives nothing usable.
  The code falls back when the fetch raises (\<open>get_base_keys_fallback\<close>), but a fetch that
  succeeds with an empty body returns the empty pool: \<open>random.choice\<close> then raises
  \<open>IndexError\<close> in each of the three attempts and the process exits with status 1.
\<close>

theorem empty_body_gives_empty_pool:
  "get_base_keys (SeedResponse 200 (Some [])) = Inr [] \<and>
   fst (run env_empty_body) = 1 \<and>
   stdout (snd (run env_empty_body)) = [] \<and>
   stderr (snd (run env_empty_body)) =
     [UnexpectedErrorLine 1 3 IndexError, UnexpectedErrorLine 2 3 IndexError,
      UnexpectedErrorLine 3 3 IndexError, exhausted_line]"
  by (simp add: eval_defs env_empty_body_def)




text \<open>
  C6. When the fetch of the seed-key source succeeds (the call returns, the status is not
  one on which \<open>raise_for_status\<close> raises, the body is valid UTF-8), the pool is the
  body split on commas, each segment trimmed of white space, the empty segments dropped,
  in the order of the body and with its duplicates; the body \<open>K1, K2 ,K3\<close> gives
  exactly \<open>K1\<close>, \<open>K2\<close>, \<open>K3\<close>.
\<close>

theorem pool_is_parsed_body:
  "(\<not> (400 \<le> st \<and> st < 600) \<longrightarrow>
      get_base_keys (SeedResponse st (Some body)) = Inr (spec_parse_pool body)) \<and>
   get_base_keys (SeedResponse 200 (Some (py ''K1, K2 ,K3''))) =
     Inr [py ''K1'', py ''K2'', py ''K3'']"
proof
  show "\<not> (400 \<le> st \<and> st < 600) \<longrightarrow>
      get_base_keys (SeedResponse st (Some body)) = Inr (spec_parse_pool body)"
    using get_base_keys_parse by blast
  show "get_base_keys (SeedResponse 200 (Some (py ''K1, K2 ,K3''))) =
     Inr [py ''K1'', py ''K2'', py ''K3'']"
    by (simp add: get_base_keys_success py_def comma_def py_strip_def isspace_def)
qed

theorem pool_is_parsed_body_witness:
  "\<not> (400 \<le> (200::nat) \<and> (200::nat) < 600) \<and>
   get_base_keys (SeedResponse 200 (Some (py ''a,, b ,a''))) =
     Inr (spec_parse_pool (py ''a,, b ,a'')) \<and>
   spec_parse_pool (py ''a,, b ,a'') = [py ''a'', py ''b'', py ''a'']"
proof -
  have h: "\<not> (400 \<le> (200::nat) \<and> (200::nat) < 600)" by simp
  have e: "spec_parse_pool (py ''a,, b ,a'') = [py ''a'', py ''b'', py ''a'']"
    by (simp add: spec_parse_pool_def spec_segments_py_split spec_trim_def py_def comma_def
        isspace_def)
  from pool_is_parsed_body [of 200 "py ''a,, b ,a''"] h e show ?thesis by blast
qed

text \<open>
  C7. An interruption by the operator, wherever it comes in the workflow (while the seed
  keys are fetched, during a request or a sleep, or before any statement: a request, a
  step of the parsing, the draw, a print, the entry or the exit of the \<open>with\<close> block, a
  statement of a handler of the loop, the final \<open>sys.exit\<close>), ends the process with
  status 130: the interruption is followed by nothing but the closing of the client and
  the cancellation line on standard error, so no handler of the retry loop has run for it
  (no failure line, no increment, no sleep). The cancellation line differs from the line
  of exhausted retries. What was printed before the interruption stays printed.
\<close>

theorem interrupt_exits_130:
  assumes "interrupted (snd (run env))"
  shows "fst (run env) = 130 \<and>
    (\<exists>pre ev. (snd (run env) = pre @ [ev, Stderr cancelled_line] \<or>
                snd (run env) = pre @ [ev, ClientClose, Stderr cancelled_line]) \<and>
       is_interrupt ev \<and> \<not> interrupted pre) \<and>
    cancelled_line \<noteq> exhausted_line"
proof (cases env rule: run_cases)
  case cancelled_at_fetch
  have "[SeedGet SeedInterrupted, Stderr cancelled_line] =
      [] @ [SeedGet SeedInterrupted, Stderr cancelled_line]" by simp
  moreover have "is_interrupt (SeedGet SeedInterrupted)" "\<not> interrupted []" by simp_all
  ultimately have "\<exists>pre ev. ([SeedGet SeedInterrupted, Stderr cancelled_line] =
        pre @ [ev, Stderr cancelled_line] \<or>
      [SeedGet SeedInterrupted, Stderr cancelled_line] =
        pre @ [ev, ClientClose, Stderr cancelled_line]) \<and>
      is_interrupt ev \<and> \<not> interrupted pre"
    by blast
  then show ?thesis
    using cancelled_at_fetch(2) cancelled_not_exhausted by simp
next
  case (returned pool w1 w' lic t0)
  from attempt_shape [OF returned(3)] obtain ta where
    ta: "trace w' = trace w1 @ ta" "\<not> interrupted ta"
    by auto
  have "\<not> interrupted (trace w')"
    unfolding ta(1) returned(4)
    using returned(5) ta(2) seed_get_not_interrupt [OF returned(2)]
    by (simp add: clean_def)
  with assms returned(6) show ?thesis by simp
next
  case (cancelled pool t)
  from cancelled(3) obtain pre ev where
    t: "t = pre @ [ev] \<or> t = pre @ [ev, ClientClose]" and ev: "is_interrupt ev"
    and pre: "\<not> interrupted pre"
    unfolding cut_short_def by blast
  let ?pre = "SeedGet (seed_source env) # pre"
  from t have "snd (run env) = ?pre @ [ev, Stderr cancelled_line] \<or>
      snd (run env) = ?pre @ [ev, ClientClose, Stderr cancelled_line]"
    using cancelled(6) by auto
  moreover have "\<not> interrupted ?pre"
    using pre seed_get_not_interrupt [OF cancelled(2)] by simp
  ultimately have "\<exists>pre ev. (snd (run env) = pre @ [ev, Stderr cancelled_line] \<or>
                snd (run env) = pre @ [ev, ClientClose, Stderr cancelled_line]) \<and>
       is_interrupt ev \<and> \<not> interrupted pre"
    using ev by blast
  then show ?thesis
    using cancelled(6) cancelled_not_exhausted by simp
next
  case (exhausted pool w0 w')
  from retry_loop_post [OF exhausted(4)] obtain t where
    t: "trace w' = trace w0 @ t" "\<not> interrupted t"
    unfolding loop_post_def by auto
  have "\<not> interrupted (trace w')"
    unfolding t(1) exhausted(3)
    using t(2) seed_get_not_interrupt [OF exhausted(2)] by simp
  with assms exhausted(5) show ?thesis by simp
qed

text \<open>
  Two interruptions: of the second registration, and after the three prints of a first
  attempt that went through, when the block is left. The second leaves the key on
  standard output.
\<close>

theorem interrupt_exits_130_witness:
  "interrupted (snd (run env_interrupted)) \<and>
   fst (run env_interrupted) = 130 \<and>
   stderr (snd (run env_interrupted)) = [cancelled_line] \<and>
   (\<exists>pre ev. (snd (run env_interrupted) = pre @ [ev, Stderr cancelled_line] \<or>
               snd (run env_interrupted) = pre @ [ev, ClientClose, Stderr cancelled_line]) \<and>
      is_interrupt ev \<and> \<not> interrupted pre) \<and>
   interrupted (snd (run env_late_interrupt)) \<and>
   fst (run env_late_interrupt) = 130 \<and>
   stdout (snd (run env_late_interrupt)) = [JStr (py ''LIC-ORIG'')] \<and>
   stderr (snd (run env_late_interrupt)) =
     [AccountTypeLine (JStr (py ''limited'')), DataCountLine (JNum 10), cancelled_line] \<and>
   (\<exists>pre ev. (snd (run env_late_interrupt) = pre @ [ev, Stderr cancelled_line] \<or>
               snd (run env_late_interrupt) = pre @ [ev, ClientClose, Stderr cancelled_line]) \<and>
      is_interrupt ev \<and> \<not> interrupted pre) \<and>
   cancelled_line \<noteq> exhausted_line"
proof -
  have h: "interrupted (snd (run env_interrupted))"
    by (simp add: eval_defs env_interrupted_def get_base_keys_fallback interrupted_def)
  have e: "stderr (snd (run env_interrupted)) = [cancelled_line]"
    by (simp add: eval_defs env_interrupted_def get_base_keys_fallback)
  have h': "interrupted (snd (run env_late_interrupt))"
    by (simp add: eval_defs env_late_interrupt_def env_ok_def interrupted_def)
  have o': "stdout (snd (run env_late_interrupt)) = [JStr (py ''LIC-ORIG'')]"
    by (simp add: eval_defs env_late_interrupt_def env_ok_def)
  have e': "stderr (snd (run env_late_interrupt)) =
     [AccountTypeLine (JStr (py ''limited'')), DataCountLine (JNum 10), cancelled_line]"
    by (simp add: eval_defs env_late_interrupt_def env_ok_def)
  from interrupt_exits_130 [OF h] interrupt_exits_130 [OF h'] h e h' o' e'
  show ?thesis by blast
qed

text \<open>
  C8. The seed key is drawn from the pool that the attempt was given: \<open>random.choice\<close>
  returns an element of a non-empty pool, the key sent in the request that follows the draw
  is that element, and for a pool of exactly one entry it is that entry whatever the
  random source answers.
\<close>

theorem single_key_pool_is_deterministic:
  "fst (random_choice env [x] w) = Inr x \<and>
   (base_keys \<noteq> [] \<longrightarrow> (\<exists>k\<in>set base_keys. fst (random_choice env base_keys w) = Inr k)) \<and>
   (attempt env base_keys w = (Inr lic, w') \<longrightarrow>
      (\<exists>k\<in>set base_keys. \<exists>pre post p h out.
         trace w' = pre @ Choice base_keys #
           Http (Request PUT p h (Some (JObj [(py ''license'', JStr k)]))) out # post \<and>
         (\<forall>y. base_keys = [y] \<longrightarrow> k = y)))"
proof (intro conjI impI)
  show "fst (random_choice env [x] w) = Inr x"
    by (simp add: random_choice_def)
next
  assume "base_keys \<noteq> []"
  then show "\<exists>k\<in>set base_keys. fst (random_choice env base_keys w) = Inr k"
    by (simp add: random_choice_def)
next
  assume a: "attempt env base_keys w = (Inr lic, w')"
  define k where "k = base_keys ! (random_source env (draws w) mod length base_keys)"
  from attempt_success [OF a] obtain id1 token1 license id2 token2 at rc where
    ne: "base_keys \<noteq> []" and
    t: "trace w' = trace w @
      [ClientOpen,
       Http (Request POST Reg [] None) (api env (requests_sent w)),
       Http (Request POST Reg [] None) (api env (requests_sent w + 1)),
       Http (Request PATCH (RegId id1)
               [(''Content-Type'', Literal ''application/json; charset=UTF-8''),
                (''Authorization'', Bearer token1)]
               (Some (JObj [(py ''referrer'', id2)]))) (api env (requests_sent w + 2)),
       Http (Request DELETE (RegId id2) [(''Authorization'', Bearer token2)] None)
            (api env (requests_sent w + 3)),
       Choice base_keys,
       Http (Request PUT (RegIdAccount id1)
               [(''Content-Type'', Literal ''application/json; charset=UTF-8''),
                (''Authorization'', Bearer token1)]
               (Some (JObj [(py ''license'', JStr k)])))
            (api env (requests_sent w + 4)),
       Http (Request PUT (RegIdAccount id1)
               [(''Content-Type'', Literal ''application/json; charset=UTF-8''),
                (''Authorization'', Bearer token1)]
               (Some (JObj [(py ''license'', license)])))
            (api env (requests_sent w + 5)),
       Http (Request GET (RegIdAccount id1) [(''Authorization'', Bearer token1)] None)
            (api env (requests_sent w + 6)),
       Http (Request DELETE (RegId id1) [(''Authorization'', Bearer token1)] None)
            (api env (requests_sent w + 7)),
       Stdout lic, Stderr (AccountTypeLine at), Stderr (DataCountLine rc), ClientClose]"
    unfolding k_def by blast
  have k: "k \<in> set base_keys" unfolding k_def using ne by simp
  have one: "\<forall>y. base_keys = [y] \<longrightarrow> k = y" unfolding k_def by auto
  have "\<exists>pre post p h out.
         trace w' = pre @ Choice base_keys #
           Http (Request PUT p h (Some (JObj [(py ''license'', JStr k)]))) out # post"
    unfolding t
    apply (rule exI [of _ "trace w @
      [ClientOpen,
       Http (Request POST Reg [] None) (api env (requests_sent w)),
       Http (Request POST Reg [] None) (api env (requests_sent w + 1)),
       Http (Request PATCH (RegId id1)
               [(''Content-Type'', Literal ''application/json; charset=UTF-8''),
                (''Authorization'', Bearer token1)]
               (Some (JObj [(py ''referrer'', id2)]))) (api env (requests_sent w + 2)),
       Http (Request DELETE (RegId id2) [(''Authorization'', Bearer token2)] None)
            (api env (requests_sent w + 3))]"])
    apply (intro exI)
    apply simp
    done
  with k one show "\<exists>k\<in>set base_keys. \<exists>pre post p h out.
         trace w' = pre @ Choice base_keys #
           Http (Request PUT p h (Some (JObj [(py ''license'', JStr k)]))) out # post \<and>
         (\<forall>y. base_keys = [y] \<longrightarrow> k = y)"
    by blast
qed

theorem single_key_pool_is_deterministic_witness:
  "[py ''SEED-1''] \<noteq> [] \<and>
   fst (attempt env_ok [py ''SEED-1''] world0) = Inr (JStr (py ''LIC-ORIG'')) \<and>
   (\<exists>k\<in>set [py ''SEED-1'']. \<exists>pre post p h out.
      trace (snd (attempt env_ok [py ''SEED-1''] world0)) = pre @ Choice [py ''SEED-1''] #
        Http (Request PUT p h (Some (JObj [(py ''license'', JStr k)]))) out # post \<and>
      (\<forall>y. [py ''SEED-1''] = [y] \<longrightarrow> k = y))"
proof -
  have f: "fst (attempt env_ok [py ''SEED-1''] world0) = Inr (JStr (py ''LIC-ORIG''))"
    by (simp add: eval_defs env_ok_def)
  then have "attempt env_ok [py ''SEED-1''] world0 =
      (Inr (JStr (py ''LIC-ORIG'')), snd (attempt env_ok [py ''SEED-1''] world0))"
    by (metis prod.collapse)
  with single_key_pool_is_deterministic
    [of env_ok "py ''SEED-1''" world0 "[py ''SEED-1'']" "JStr (py ''LIC-ORIG'')"
       "snd (attempt env_ok [py ''SEED-1''] world0)"] f
  show ?thesis by blast
qed

text \<open>
  C9. The seed-key pool is fetched exactly once in a run, before anything else: the fetch
  is the first event of every run and no later event is a fetch; every draw of every
  attempt is made from the pool that this one fetch returned.
\<close>

theorem pool_fetched_once:
  "\<exists>rest. snd (run env) = SeedGet (seed_source env) # rest \<and>
     (\<forall>ev\<in>set rest. (\<forall>s. ev \<noteq> SeedGet s) \<and>
        (\<forall>seq. ev = Choice seq \<longrightarrow> get_base_keys (seed_source env) = Inr seq))"
proof (cases env rule: run_cases)
  case cancelled_at_fetch
  then show ?thesis by simp
next
  case (returned pool w1 w' lic t0)
  from attempt_shape [OF returned(3)] obtain ta where
    ta: "trace w' = trace w1 @ ta" "list_all (loop_event pool) ta"
    by blast
  have "list_all (loop_event pool) (t0 @ ta)"
    using returned(5) ta(2) by (simp add: clean_def)
  moreover have "snd (run env) = SeedGet (seed_source env) # (t0 @ ta)"
    using returned(4,6) ta(1) by simp
  ultimately show ?thesis using returned(1) by (rule one_fetch)
next
  case (cancelled pool t)
  have "list_all (loop_event pool) (t @ [Stderr cancelled_line])"
    using cancelled(4) by simp
  moreover have "snd (run env) = SeedGet (seed_source env) # (t @ [Stderr cancelled_line])"
    using cancelled(6) by simp
  ultimately show ?thesis using cancelled(1) by (rule one_fetch)
next
  case (exhausted pool w0 w')
  from retry_loop_post [OF exhausted(4)] obtain t where
    t: "trace w' = trace w0 @ t" "list_all (loop_event pool) t"
    unfolding loop_post_def by auto
  have "snd (run env) = SeedGet (seed_source env) # t"
    using exhausted(3,5) t(1) by simp
  with t(2) show ?thesis using exhausted(1) by (rule one_fetch)
qed

theorem pool_fetched_once_witness:
  "Choice [py ''SEED-1''] \<in> set (snd (run env_ok)) \<and>
   get_base_keys (seed_source env_ok) = Inr [py ''SEED-1''] \<and>
   (\<exists>rest. snd (run env_ok) = SeedGet (seed_source env_ok) # rest \<and>
     (\<forall>ev\<in>set rest. (\<forall>s. ev \<noteq> SeedGet s) \<and>
        (\<forall>seq. ev = Choice seq \<longrightarrow> get_base_keys (seed_source env_ok) = Inr seq)))"
proof -
  have "Choice [py ''SEED-1''] \<in> set (snd (run env_ok))"
    by (simp add: eval_defs env_ok_def)
  moreover have "get_base_keys (seed_source env_ok) = Inr [py ''SEED-1'']"
    by (simp add: eval_defs env_ok_def)
  ultimately show ?thesis using pool_fetched_once [of env_ok] by blast
qed



end
